theory Spec2Isabelle
  imports Main
begin

section \<open>Values, identities and user code\<close>

text \<open>
  The reactive core of \<^verbatim>\<open>dist/reactive.js\<close> is a handful of closures over two
  process-wide registries (\<^verbatim>\<open>EFFECT_STACK\<close>, \<^verbatim>\<open>EFFECT_DEPS\<close>). The closures are
  identified by the index of the \<^verbatim>\<open>createSignal\<close> / \<^verbatim>\<open>createEffect\<close> /
  \<^verbatim>\<open>createComputed\<close> / \<^verbatim>\<open>$state\<close> call that made them; their captured variables
  are fields of one explicit state record.

  JavaScript values: the numbers here are the integers, negative zero and \<^verbatim>\<open>NaN\<close> (no
  other fraction, no infinity); a function value is a reference \<open>VFun f\<close> to a user
  function, an object value a reference \<open>VObj n\<close>.
\<close>

type_synonym fid = nat
type_synonym sid = nat
type_synonym cid = nat
type_synonym oid = nat

datatype val = VUndefined | VNull | VBool bool | VNum int | VNegZero | VNaN | VStr string | VFun fid | VObj nat

text \<open>\<^verbatim>\<open>typeof v === "function"\<close>\<close>

fun is_function :: "val \<Rightarrow> bool" where
  "is_function (VFun f) = True"
| "is_function v = False"

text \<open>
  \<^verbatim>\<open>a === b\<close>: \<^verbatim>\<open>NaN\<close> equals nothing, itself included; the two zeros are equal;
  functions and objects are compared by reference.
\<close>

definition strict_eq :: "val \<Rightarrow> val \<Rightarrow> bool" where
  "strict_eq a b \<longleftrightarrow>
     a \<noteq> VNaN \<and> b \<noteq> VNaN \<and> (a = b \<or> (a \<in> {VNum 0, VNegZero} \<and> b \<in> {VNum 0, VNegZero}))"

text \<open>What a \<^verbatim>\<open>throw\<close> carries: an \<^verbatim>\<open>Error\<close> made by the library, or a user value.\<close>

datatype exn = Error string | Raised val

datatype 'a completion = Normal 'a | Thrown exn

text \<open>
  An object that carries a \<^verbatim>\<open>__subs\<close> set: the \<^verbatim>\<open>get\<close> function of a signal, or the
  \<^verbatim>\<open>{ __subs: new Set() }\<close> record made by \<^verbatim>\<open>_ensurePropSignalFor\<close>.
\<close>

datatype key = SignalKey sid | PropKey nat

text \<open>
  A member of a \<^verbatim>\<open>__subs\<close> set or of the stack: the \<^verbatim>\<open>runner\<close> closure of an effect,
  the \<^verbatim>\<open>recompute\<close> closure of a computed, or a user function passed to \<^verbatim>\<open>subscribe\<close>.
\<close>

datatype sub = Runner cid | Recompute cid | Listener fid

text \<open>
  The backing record of a state object is a plain object: \<^verbatim>\<open>target[prop]\<close>,
  \<^verbatim>\<open>Reflect.get\<close> and \<^verbatim>\<open>Reflect.set\<close> reach \<^verbatim>\<open>Object.prototype\<close> for the names
  defined there. The model has no prototype chain; its property names are all the other
  strings, for which these operations read and write an own data property of the record.
\<close>

definition object_prototype_names :: "string list" where
  "object_prototype_names =
     [''constructor'', ''__defineGetter__'', ''__defineSetter__'', ''hasOwnProperty'',
      ''__lookupGetter__'', ''__lookupSetter__'', ''isPrototypeOf'', ''propertyIsEnumerable'',
      ''toString'', ''valueOf'', ''__proto__'', ''toLocaleString'']"

typedef pname = "{s :: string. s \<notin> set object_prototype_names}"
  by (rule exI[of _ "[]"]) (simp add: object_prototype_names_def)

text \<open>What the \<^verbatim>\<open>get\<close> trap of a state proxy returns.\<close>

datatype propval = Plain val | SubscribeFn oid | InspectFn oid

text \<open>
  User code (effect bodies, computed bodies, cleanups, updaters, listeners) as the tree of
  its interactions with the library: read a signal, write a signal, read or assign a
  property of a state proxy, call the disposer of an effect, append to the user's own
  array, return, throw. Each continuation receives what the library call returned.
\<close>

datatype prog =
    Return val
  | Throw val
  | Get sid "val \<Rightarrow> prog"
  | Set sid val "val \<Rightarrow> prog"
  | StateGet oid pname "propval \<Rightarrow> prog"
  | StateSet oid pname val prog
  | Dispose cid prog
  | Push val "val \<Rightarrow> prog"

text \<open>
  Instrumentation only (never read by the model): which user function was invoked with which
  arguments, which runner was entered, which read was attributed to which computation,
  which disposer was called.
\<close>

datatype event = Invoke fid "val list" | Run sub | Tracked sub key | Disposed sub

record state =
  EFFECT_STACK :: "sub list"
  EFFECT_DEPS :: "sub \<Rightarrow> key list option"
  subs :: "key \<Rightarrow> sub list"
  sig_value :: "sid \<Rightarrow> val"
  eff_fn :: "cid \<Rightarrow> fid"
  eff_cleanup :: "cid \<Rightarrow> val"
  comp_fn :: "cid \<Rightarrow> fid"
  comp_cached :: "cid \<Rightarrow> val"
  comp_dirty :: "cid \<Rightarrow> bool"
  comp_cleanup :: "cid \<Rightarrow> val"
  target :: "oid \<Rightarrow> pname \<Rightarrow> val option"
  STATE_PROP_SIGNALS :: "oid \<Rightarrow> (pname \<Rightarrow> key option) option"
  globalSubs :: "oid \<Rightarrow> fid list"
  n_signals :: nat
  n_effects :: nat
  n_computeds :: nat
  n_objects :: nat
  n_propkeys :: nat
  seen :: "val list"
  console :: "exn list"
  timers :: "exn list"
  trace :: "event list"

definition initial_state :: state where
  "initial_state = \<lparr> EFFECT_STACK = [], EFFECT_DEPS = (\<lambda>r. None), subs = (\<lambda>k. []),
     sig_value = (\<lambda>s. VUndefined), eff_fn = (\<lambda>e. 0), eff_cleanup = (\<lambda>e. VNull),
     comp_fn = (\<lambda>c. 0), comp_cached = (\<lambda>c. VUndefined), comp_dirty = (\<lambda>c. True),
     comp_cleanup = (\<lambda>c. VNull), target = (\<lambda>ob p. None), STATE_PROP_SIGNALS = (\<lambda>ob. None),
     globalSubs = (\<lambda>ob. []), n_signals = 0, n_effects = 0, n_computeds = 0, n_objects = 0,
     n_propkeys = 0, seen = [], console = [], timers = [], trace = [] \<rparr>"

text \<open>
  A JavaScript \<^verbatim>\<open>Set\<close> iterates in insertion order and holds no duplicates: a list,
  with \<^verbatim>\<open>add\<close> appending only what is absent.
\<close>

definition set_add :: "'a \<Rightarrow> 'a list \<Rightarrow> 'a list" where
  "set_add x xs = (if x \<in> set xs then xs else xs @ [x])"

definition set_delete :: "'a \<Rightarrow> 'a list \<Rightarrow> 'a list" where
  "set_delete x xs = removeAll x xs"

definition log :: "event \<Rightarrow> state \<Rightarrow> state" where
  "log ev st = st\<lparr>trace := trace st @ [ev]\<rparr>"

text \<open>\<^verbatim>\<open>EFFECT_STACK[EFFECT_STACK.length - 1]\<close>: \<^verbatim>\<open>undefined\<close> on the empty stack.\<close>

definition active :: "state \<Rightarrow> sub option" where
  "active st = (if EFFECT_STACK st = [] then None else Some (last (EFFECT_STACK st)))"

section \<open>The dependency registry\<close>

text \<open>
  \<^verbatim>\<open>_trackDependency(runner, signalKey)\<close>. Both arguments are objects at every call site,
  so the first guard never returns; every key of the model has its \<^verbatim>\<open>__subs\<close>.
\<close>

definition trackDependency :: "sub \<Rightarrow> key \<Rightarrow> state \<Rightarrow> state" where
  "trackDependency runner signalKey st =
     (let st1 = (if runner \<in> set (subs st signalKey) then st
                 else st\<lparr>subs := (subs st)(signalKey := subs st signalKey @ [runner])\<rparr>);
          deps = (case EFFECT_DEPS st1 runner of None \<Rightarrow> [] | Some d \<Rightarrow> d)
      in st1\<lparr>EFFECT_DEPS := (EFFECT_DEPS st1)(runner \<mapsto> set_add signalKey deps)\<rparr>)"

text \<open>
  The block that opens \<^verbatim>\<open>runner\<close>, \<^verbatim>\<open>recompute\<close> and the disposer alike: delete the
  closure from the \<^verbatim>\<open>__subs\<close> of every recorded dependency, then drop the record.
\<close>

definition unsubscribe_one :: "sub \<Rightarrow> key \<Rightarrow> state \<Rightarrow> state" where
  "unsubscribe_one r sigKey st = st\<lparr>subs := (subs st)(sigKey := set_delete r (subs st sigKey))\<rparr>"

definition unsubscribe_deps :: "sub \<Rightarrow> state \<Rightarrow> state" where
  "unsubscribe_deps r st =
     (case EFFECT_DEPS st r of
        None \<Rightarrow> st
      | Some prevDeps \<Rightarrow>
          (let st1 = fold (unsubscribe_one r) prevDeps st
           in st1\<lparr>EFFECT_DEPS := (EFFECT_DEPS st1)(r := None)\<rparr>))"

section \<open>Signals\<close>

definition createSignal :: "val \<Rightarrow> state \<Rightarrow> sid \<times> state" where
  "createSignal initial st =
     (let s = n_signals st
      in (s, st\<lparr>n_signals := Suc s, sig_value := (sig_value st)(s := initial),
                subs := (subs st)(SignalKey s := [])\<rparr>))"

definition signal_get :: "sid \<Rightarrow> state \<Rightarrow> val \<times> state" where
  "signal_get s st =
     (case active st of
        None \<Rightarrow> (sig_value st s, st)
      | Some a \<Rightarrow> (sig_value st s, trackDependency a (SignalKey s) (log (Tracked a (SignalKey s)) st)))"

definition signal_subscribe :: "sid \<Rightarrow> val \<Rightarrow> state \<Rightarrow> state" where
  "signal_subscribe s fn st =
     (case fn of
        VFun f \<Rightarrow> st\<lparr>subs := (subs st)(SignalKey s := set_add (Listener f) (subs st (SignalKey s)))\<rparr>
      | _ \<Rightarrow> st)"

definition signal_unsubscribe :: "sid \<Rightarrow> fid \<Rightarrow> state \<Rightarrow> state" where
  "signal_unsubscribe s f st =
     st\<lparr>subs := (subs st)(SignalKey s := set_delete (Listener f) (subs st (SignalKey s)))\<rparr>"

section \<open>Running computations\<close>

text \<open>
  Every library function that may end up calling user code takes the way user functions
  are called as its first argument \<open>call\<close>; \<open>call f args st\<close> is \<open>None\<close> when the call
  does not return. The knot is tied by \<open>call_fuel\<close> below, which bounds the depth of
  nested user calls.
\<close>

type_synonym caller = "fid \<Rightarrow> val list \<Rightarrow> state \<Rightarrow> (val completion \<times> state) option"

text \<open>
  \<^verbatim>\<open>try { if (typeof cleanup === "function") cleanup(); } catch (err) { ... }\<close>;
  \<open>report\<close> says whether the handler calls \<^verbatim>\<open>console.error\<close> (the effect's does,
  the computed's is empty).
\<close>

definition run_cleanup :: "caller \<Rightarrow> bool \<Rightarrow> val \<Rightarrow> state \<Rightarrow> state option" where
  "run_cleanup call report cleanup st =
     (case cleanup of
        VFun f \<Rightarrow>
          (case call f [] st of
             None \<Rightarrow> None
           | Some (Normal v, st1) \<Rightarrow> Some st1
           | Some (Thrown err, st1) \<Rightarrow>
               Some (if report then st1\<lparr>console := console st1 @ [err]\<rparr> else st1))
      | _ \<Rightarrow> Some st)"

definition pop :: "state \<Rightarrow> state" where
  "pop st = st\<lparr>EFFECT_STACK := butlast (EFFECT_STACK st)\<rparr>"

definition push :: "sub \<Rightarrow> state \<Rightarrow> state" where
  "push r st = st\<lparr>EFFECT_STACK := EFFECT_STACK st @ [r]\<rparr>"

text \<open>The \<^verbatim>\<open>runner\<close> closure of effect \<open>e\<close> (lines 58 to 84).\<close>

definition runner :: "caller \<Rightarrow> cid \<Rightarrow> state \<Rightarrow> state option" where
  "runner call e st =
     (let st1 = unsubscribe_deps (Runner e) (log (Run (Runner e)) st)
      in case run_cleanup call True (eff_cleanup st1 e) st1 of
           None \<Rightarrow> None
         | Some st2 \<Rightarrow>
             (let st3 = push (Runner e) (st2\<lparr>eff_cleanup := (eff_cleanup st2)(e := VNull)\<rparr>)
              in case call (eff_fn st3 e) [] st3 of
                   None \<Rightarrow> None
                 | Some (Normal maybeCleanup, st4) \<Rightarrow>
                     Some (pop (if is_function maybeCleanup
                                then st4\<lparr>eff_cleanup := (eff_cleanup st4)(e := maybeCleanup)\<rparr>
                                else st4))
                 | Some (Thrown err, st4) \<Rightarrow>
                     Some (pop (st4\<lparr>console := console st4 @ [err]\<rparr>))))"

text \<open>The \<^verbatim>\<open>recompute\<close> closure of computed \<open>c\<close> (lines 110 to 140).\<close>

definition recompute :: "caller \<Rightarrow> cid \<Rightarrow> state \<Rightarrow> state option" where
  "recompute call c st =
     (let st1 = unsubscribe_deps (Recompute c) (log (Run (Recompute c)) st)
      in case run_cleanup call False (comp_cleanup st1 c) st1 of
           None \<Rightarrow> None
         | Some st2 \<Rightarrow>
             (let st3 = push (Recompute c) (st2\<lparr>comp_cleanup := (comp_cleanup st2)(c := VNull)\<rparr>)
              in case call (comp_fn st3 c) [] st3 of
                   None \<Rightarrow> None
                 | Some (Normal result, st4) \<Rightarrow>
                     (let st5 = (if is_function result
                                 then st4\<lparr>comp_cleanup := (comp_cleanup st4)(c := result)\<rparr>
                                 else st4\<lparr>comp_cached := (comp_cached st4)(c := result)\<rparr>)
                      in Some (pop (st5\<lparr>comp_dirty := (comp_dirty st5)(c := False)\<rparr>)))
                 | Some (Thrown err, st4) \<Rightarrow>
                     Some (pop (st4\<lparr>console := console st4 @ [err]\<rparr>))))"

text \<open>Calling a member of a \<^verbatim>\<open>__subs\<close> set with no arguments.\<close>

definition invoke :: "caller \<Rightarrow> sub \<Rightarrow> state \<Rightarrow> (val completion \<times> state) option" where
  "invoke call fn st =
     (case fn of
        Runner e \<Rightarrow> map_option (\<lambda>st1. (Normal VUndefined, st1)) (runner call e st)
      | Recompute c \<Rightarrow> map_option (\<lambda>st1. (Normal VUndefined, st1)) (recompute call c st)
      | Listener f \<Rightarrow> call f [] st)"

text \<open>
  \<^verbatim>\<open>arr.forEach((fn) => { try { fn(); } catch (err) { setTimeout(() => { throw err; }); } })\<close>
  over the snapshot \<open>arr\<close>; the timer queue holds what will be rethrown later.
\<close>

primrec notify :: "caller \<Rightarrow> sub list \<Rightarrow> state \<Rightarrow> state option" where
  "notify call [] st = Some st"
| "notify call (fn # rest) st =
     (case invoke call fn st of
        None \<Rightarrow> None
      | Some (Normal v, st1) \<Rightarrow> notify call rest st1
      | Some (Thrown err, st1) \<Rightarrow> notify call rest (st1\<lparr>timers := timers st1 @ [err]\<rparr>))"

text \<open>
  What \<^verbatim>\<open>set(newVal)\<close> is about to store (lines 29 to 33): the result of the updater
  called on the current value when \<^verbatim>\<open>newVal\<close> is a function, \<^verbatim>\<open>newVal\<close> otherwise.
\<close>

definition next_value :: "caller \<Rightarrow> sid \<Rightarrow> val \<Rightarrow> state \<Rightarrow> (val completion \<times> state) option" where
  "next_value call s newVal st =
     (case newVal of VFun f \<Rightarrow> call f [sig_value st s] st | _ \<Rightarrow> Some (Normal newVal, st))"

text \<open>
  The \<^verbatim>\<open>set\<close> closure of signal \<open>s\<close> (lines 27 to 46): \<^verbatim>\<open>old\<close> is read before the
  updater runs, the result is stored before it is compared with \<^verbatim>\<open>old\<close>.
\<close>

definition signal_set :: "caller \<Rightarrow> sid \<Rightarrow> val \<Rightarrow> state \<Rightarrow> (val completion \<times> state) option" where
  "signal_set call s newVal st =
     (let old = sig_value st s
      in case next_value call s newVal st of
           None \<Rightarrow> None
         | Some (Thrown err, st1) \<Rightarrow> Some (Thrown err, st1)
         | Some (Normal v, st1) \<Rightarrow>
             (let st2 = st1\<lparr>sig_value := (sig_value st1)(s := v)\<rparr>
              in if strict_eq old v then Some (Normal v, st2)
                 else (case notify call (subs st2 (SignalKey s)) st2 of
                         None \<Rightarrow> None
                       | Some st3 \<Rightarrow> Some (Normal (sig_value st3 s), st3))))"

section \<open>Effects and computed values\<close>

text \<open>
  \<^verbatim>\<open>createEffect(fn)\<close>: the type check, the closure variables, the first \<^verbatim>\<open>runner()\<close>.
  The disposer it returns is \<open>disposer e\<close> for the index \<open>e\<close> it returns here.
\<close>

definition createEffect :: "caller \<Rightarrow> val \<Rightarrow> state \<Rightarrow> (cid completion \<times> state) option" where
  "createEffect call fn st =
     (case fn of
        VFun f \<Rightarrow>
          (let e = n_effects st;
               st1 = st\<lparr>n_effects := Suc e, eff_fn := (eff_fn st)(e := f),
                        eff_cleanup := (eff_cleanup st)(e := VNull)\<rparr>
           in map_option (\<lambda>st2. (Normal e, st2)) (runner call e st1))
      | _ \<Rightarrow> Some (Thrown (Error ''createEffect: fn must be a function''), st))"

definition disposer :: "caller \<Rightarrow> cid \<Rightarrow> state \<Rightarrow> state option" where
  "disposer call e st =
     (let st1 = unsubscribe_deps (Runner e) (log (Disposed (Runner e)) st)
      in case run_cleanup call True (eff_cleanup st1 e) st1 of
           None \<Rightarrow> None
         | Some st2 \<Rightarrow> Some (st2\<lparr>eff_cleanup := (eff_cleanup st2)(e := VNull)\<rparr>))"

text \<open>
  \<^verbatim>\<open>createComputed(fn)\<close>; \<^verbatim>\<open>cached\<close> starts \<^verbatim>\<open>undefined\<close>, \<^verbatim>\<open>dirty\<close> starts true.
  The getter it returns is \<open>getter c\<close>.
\<close>

definition createComputed :: "caller \<Rightarrow> val \<Rightarrow> state \<Rightarrow> (cid completion \<times> state) option" where
  "createComputed call fn st =
     (case fn of
        VFun f \<Rightarrow>
          (let c = n_computeds st;
               st1 = st\<lparr>n_computeds := Suc c, comp_fn := (comp_fn st)(c := f),
                        comp_cached := (comp_cached st)(c := VUndefined),
                        comp_dirty := (comp_dirty st)(c := True),
                        comp_cleanup := (comp_cleanup st)(c := VNull)\<rparr>
           in map_option (\<lambda>st2. (Normal c, st2)) (recompute call c st1))
      | _ \<Rightarrow> Some (Thrown (Error ''createComputed: fn must be a function''), st))"

definition getter :: "caller \<Rightarrow> cid \<Rightarrow> state \<Rightarrow> (val \<times> state) option" where
  "getter call c st =
     (if comp_dirty st c
      then map_option (\<lambda>st1. (comp_cached st1 c, st1)) (recompute call c st)
      else Some (comp_cached st c, st))"

section \<open>Reactive state objects\<close>

text \<open>
  The backing record of a state object is a finite map from property names to values, its
  own data properties. A global listener is a function. The \<^verbatim>\<open>get\<close> and \<^verbatim>\<open>set\<close> traps
  are modelled; \<^verbatim>\<open>deleteProperty\<close> is not.
\<close>

definition ensurePropSignalFor :: "oid \<Rightarrow> pname \<Rightarrow> state \<Rightarrow> key \<times> state" where
  "ensurePropSignalFor ob prop st =
     (let m = (case STATE_PROP_SIGNALS st ob of None \<Rightarrow> (\<lambda>p. None) | Some m0 \<Rightarrow> m0)
      in case m prop of
           Some sig \<Rightarrow> (sig, st)
         | None \<Rightarrow>
             (let sig = PropKey (n_propkeys st)
              in (sig, st\<lparr>n_propkeys := Suc (n_propkeys st),
                          subs := (subs st)(sig := []),
                          STATE_PROP_SIGNALS := (STATE_PROP_SIGNALS st)(ob \<mapsto> m(prop \<mapsto> sig))\<rparr>)))"

text \<open>\<^verbatim>\<open>$state(initial)\<close>: the proxy over a copy of \<^verbatim>\<open>initial\<close>, with its own listener set.\<close>

definition state_create :: "(pname \<Rightarrow> val option) \<Rightarrow> state \<Rightarrow> oid \<times> state" where
  "state_create initial st =
     (let ob = n_objects st
      in (ob, st\<lparr>n_objects := Suc ob, target := (target st)(ob := initial),
                 globalSubs := (globalSubs st)(ob := [])\<rparr>))"

text \<open>The closures handed out for the reserved names \<^verbatim>\<open>subscribe\<close> and \<^verbatim>\<open>inspect\<close>.\<close>

definition state_subscribe :: "oid \<Rightarrow> fid \<Rightarrow> state \<Rightarrow> state" where
  "state_subscribe ob f st = st\<lparr>globalSubs := (globalSubs st)(ob := set_add f (globalSubs st ob))\<rparr>"

definition state_unsubscribe :: "oid \<Rightarrow> fid \<Rightarrow> state \<Rightarrow> state" where
  "state_unsubscribe ob f st = st\<lparr>globalSubs := (globalSubs st)(ob := set_delete f (globalSubs st ob))\<rparr>"

definition state_inspect :: "oid \<Rightarrow> state \<Rightarrow> (pname \<Rightarrow> val option)" where
  "state_inspect ob st = target st ob"

text \<open>
  \<^verbatim>\<open>target[prop]\<close> for a name that \<^verbatim>\<open>Object.prototype\<close> does not define: the own
  property, \<^verbatim>\<open>undefined\<close> when there is none.
\<close>

definition target_get :: "state \<Rightarrow> oid \<Rightarrow> pname \<Rightarrow> val" where
  "target_get st ob prop = (case target st ob prop of None \<Rightarrow> VUndefined | Some v \<Rightarrow> v)"

text \<open>The \<^verbatim>\<open>get\<close> trap (lines 173 to 186); property names are strings.\<close>

definition handler_get :: "oid \<Rightarrow> pname \<Rightarrow> state \<Rightarrow> propval \<times> state" where
  "handler_get ob prop st =
     (if Rep_pname prop = ''__isState'' then (Plain (VBool True), st)
      else if Rep_pname prop = ''subscribe'' then (SubscribeFn ob, st)
      else if Rep_pname prop = ''inspect'' then (InspectFn ob, st)
      else case active st of
             None \<Rightarrow> (Plain (target_get st ob prop), st)
           | Some a \<Rightarrow>
               (let (sig, st1) = ensurePropSignalFor ob prop st;
                    st2 = trackDependency a sig (log (Tracked a sig) st1)
                in (Plain (target_get st2 ob prop), st2)))"

text \<open>
  \<^verbatim>\<open>notifyGlobal(key, oldVal, newVal)\<close>: each listener in a \<^verbatim>\<open>try\<close> whose handler
  calls \<^verbatim>\<open>console.error\<close>. The list is the listener set when the iteration starts; user
  code here cannot change it meanwhile.
\<close>

primrec notifyGlobal :: "caller \<Rightarrow> fid list \<Rightarrow> val list \<Rightarrow> state \<Rightarrow> state option" where
  "notifyGlobal call [] args st = Some st"
| "notifyGlobal call (fn # rest) args st =
     (case call fn args st of
        None \<Rightarrow> None
      | Some (Normal v, st1) \<Rightarrow> notifyGlobal call rest args st1
      | Some (Thrown err, st1) \<Rightarrow> notifyGlobal call rest args (st1\<lparr>console := console st1 @ [err]\<rparr>))"

text \<open>
  The \<^verbatim>\<open>set\<close> trap (lines 187 to 211); both branches store the value in the record.
\<close>

definition handler_set :: "caller \<Rightarrow> oid \<Rightarrow> pname \<Rightarrow> val \<Rightarrow> state \<Rightarrow> state option" where
  "handler_set call ob prop v st =
     (let old = target_get st ob prop;
          st1 = st\<lparr>target := (target st)(ob := (target st ob)(prop \<mapsto> v))\<rparr>
      in if strict_eq old v then Some st1
         else case (case STATE_PROP_SIGNALS st1 ob of
                      None \<Rightarrow> Some st1
                    | Some m \<Rightarrow> (case m prop of
                                   None \<Rightarrow> Some st1
                                 | Some sig \<Rightarrow> notify call (subs st1 sig) st1)) of
                None \<Rightarrow> None
              | Some st2 \<Rightarrow> notifyGlobal call (globalSubs st2 ob) [VStr (Rep_pname prop), old, v] st2)"

section \<open>Running user code\<close>

primrec exec :: "caller \<Rightarrow> prog \<Rightarrow> state \<Rightarrow> (val completion \<times> state) option" where
  "exec call (Return v) st = Some (Normal v, st)"
| "exec call (Throw v) st = Some (Thrown (Raised v), st)"
| "exec call (Get s k) st = (case signal_get s st of (v, st1) \<Rightarrow> exec call (k v) st1)"
| "exec call (Set s v k) st =
     (case signal_set call s v st of
        None \<Rightarrow> None
      | Some (Thrown err, st1) \<Rightarrow> Some (Thrown err, st1)
      | Some (Normal r, st1) \<Rightarrow> exec call (k r) st1)"
| "exec call (StateGet ob prop k) st = (case handler_get ob prop st of (r, st1) \<Rightarrow> exec call (k r) st1)"
| "exec call (StateSet ob prop v p) st =
     (case handler_set call ob prop v st of
        None \<Rightarrow> None
      | Some st1 \<Rightarrow> exec call p st1)"
| "exec call (Dispose e p) st =
     (case disposer call e st of
        None \<Rightarrow> None
      | Some st1 \<Rightarrow> exec call p st1)"
| "exec call (Push v k) st =
     (let st1 = st\<lparr>seen := seen st @ [v]\<rparr>
      in exec call (k (VNum (int (length (seen st1))))) st1)"

text \<open>
  Calling user function \<open>f\<close> of the program \<open>fenv\<close> with at most \<open>n\<close> nested user calls
  below it; \<open>None\<close> when that depth does not suffice.
\<close>

primrec call_fuel :: "(fid \<Rightarrow> val list \<Rightarrow> prog) \<Rightarrow> nat \<Rightarrow> caller" where
  "call_fuel fenv 0 = (\<lambda>f args st. None)"
| "call_fuel fenv (Suc n) = (\<lambda>f args st. exec (call_fuel fenv n) (fenv f args) (log (Invoke f args) st))"

section \<open>Invariants, event summaries and concrete programs\<close>

text \<open>Runners and recompute closures are the computations; a listener is not.\<close>

fun is_comp :: "sub \<Rightarrow> bool" where
  "is_comp (Listener f) = False"
| "is_comp r = True"

text \<open>The keys recorded for a computation in \<^verbatim>\<open>EFFECT_DEPS\<close> (none when it has no entry).\<close>

definition dep_keys :: "state \<Rightarrow> sub \<Rightarrow> key set" where
  "dep_keys st r = (case EFFECT_DEPS st r of None \<Rightarrow> {} | Some ds \<Rightarrow> set ds)"

text \<open>
  What every state reached from \<open>initial_state\<close> satisfies: a computation sits in the
  \<^verbatim>\<open>__subs\<close> of a key only if \<^verbatim>\<open>EFFECT_DEPS\<close> records that key for it; no \<^verbatim>\<open>__subs\<close>
  holds a member twice; property keys not yet allocated have no subscribers; the property
  maps hold allocated property keys only.
\<close>

definition consistent :: "state \<Rightarrow> bool" where
  "consistent st \<longleftrightarrow>
     (\<forall>r k. is_comp r \<longrightarrow> r \<in> set (subs st k) \<longrightarrow> k \<in> dep_keys st r) \<and>
     (\<forall>k. distinct (subs st k)) \<and>
     (\<forall>i. n_propkeys st \<le> i \<longrightarrow> subs st (PropKey i) = []) \<and>
     (\<forall>ob m p k. STATE_PROP_SIGNALS st ob = Some m \<longrightarrow> m p = Some k \<longrightarrow> (\<exists>i<n_propkeys st. k = PropKey i))"

text \<open>
  Whether computation \<open>r\<close> is subscribed to key \<open>k\<close> after the events \<open>evs\<close>, when \<open>b\<close>
  says whether it was before: the start of a run of \<open>r\<close> and a disposal of \<open>r\<close> end the
  subscription, a read of \<open>k\<close> attributed to \<open>r\<close> makes it.
\<close>

fun follow :: "sub \<Rightarrow> key \<Rightarrow> event list \<Rightarrow> bool \<Rightarrow> bool" where
  "follow r k [] b = b"
| "follow r k (ev # evs) b =
     follow r k evs (if ev = Run r \<or> ev = Disposed r then False else if ev = Tracked r k then True else b)"

text \<open>
  \<open>rel A a st evs st'\<close>: the library went from \<open>st\<close> to \<open>st'\<close> with \<open>a\<close> the active
  computation at the outer level, logging \<open>evs\<close>. Rethrown errors are only ever queued;
  the global listeners and the functions of the computations stay as they are; a computed
  that was not dirty is not dirty.
  From a consistent state: the subscriptions of every computation are those that \<open>follow\<close>
  gives; a computation that was neither entered nor disposed keeps its
  subscriptions and gains exactly the tracked reads; a read is attributed to \<open>a\<close> or to a
  computation entered on the way; a computation is entered only if it is in \<open>A\<close>, was
  subscribed somewhere at the start, or is \<open>a\<close>.
\<close>

definition rel :: "sub set \<Rightarrow> sub option \<Rightarrow> state \<Rightarrow> event list \<Rightarrow> state \<Rightarrow> bool" where
  "rel A a st evs st' \<longleftrightarrow>
     trace st' = trace st @ evs \<and> (\<exists>ts. timers st' = timers st @ ts) \<and>
     globalSubs st' = globalSubs st \<and> eff_fn st' = eff_fn st \<and> comp_fn st' = comp_fn st \<and>
     (\<forall>c. comp_dirty st' c \<longrightarrow> comp_dirty st c) \<and>
     (consistent st \<longrightarrow>
        consistent st' \<and>
        (\<forall>r k. is_comp r \<longrightarrow> (r \<in> set (subs st' k) \<longleftrightarrow> follow r k evs (r \<in> set (subs st k)))) \<and>
        (\<forall>r k. Run r \<notin> set evs \<longrightarrow> r \<in> set (subs st' k) \<longrightarrow> r \<in> set (subs st k) \<or> Tracked r k \<in> set evs) \<and>
        (\<forall>r k. Run r \<notin> set evs \<longrightarrow> Disposed r \<notin> set evs \<longrightarrow>
               r \<in> set (subs st k) \<or> Tracked r k \<in> set evs \<longrightarrow> r \<in> set (subs st' k)) \<and>
        (\<forall>r k. Tracked r k \<in> set evs \<longrightarrow> a = Some r \<or> Run r \<in> set evs) \<and>
        (\<forall>r. Run r \<in> set evs \<longrightarrow> is_comp r \<and> (r \<in> A \<or> (\<exists>k. r \<in> set (subs st k)) \<or> a = Some r)))"

text \<open>A completed call: the stack is back where it was.\<close>

definition seg :: "sub set \<Rightarrow> state \<Rightarrow> state \<Rightarrow> bool" where
  "seg A st st' \<longleftrightarrow> EFFECT_STACK st' = EFFECT_STACK st \<and> (\<exists>evs. rel A (active st) st evs st')"

text \<open>A way of calling user functions all of whose returning calls are such segments.\<close>

definition good :: "caller \<Rightarrow> bool" where
  "good call \<longleftrightarrow> (\<forall>f args st res st'. call f args st = Some (res, st') \<longrightarrow> seg {} st st')"

text \<open>
  A step that touches neither the registries, nor the log, nor who listens, nor which
  function a computation runs, and makes no computed dirty.
\<close>

definition quiet :: "state \<Rightarrow> state \<Rightarrow> bool" where
  "quiet st st' \<longleftrightarrow> trace st' = trace st \<and> (\<exists>ts. timers st' = timers st @ ts) \<and> subs st' = subs st \<and>
     EFFECT_DEPS st' = EFFECT_DEPS st \<and> n_propkeys st' = n_propkeys st \<and>
     STATE_PROP_SIGNALS st' = STATE_PROP_SIGNALS st \<and>
     globalSubs st' = globalSubs st \<and> eff_fn st' = eff_fn st \<and> comp_fn st' = comp_fn st \<and>
     (\<forall>c. comp_dirty st' c \<longrightarrow> comp_dirty st c)"

text \<open>
  The shape of one run cycle of computation \<open>r\<close>: unsubscribe, the cleanup's segment, push,
  the body's segment, pop.
\<close>

definition entered :: "sub \<Rightarrow> state \<Rightarrow> state \<Rightarrow> bool" where
  "entered r st s5 \<longleftrightarrow>
     is_comp r \<and>
     (\<exists>s2 s3 s4. seg {} (unsubscribe_deps r (log (Run r) st)) s2 \<and>
        quiet s2 s3 \<and> EFFECT_STACK s3 = EFFECT_STACK s2 @ [r] \<and>
        seg {} s3 s4 \<and> quiet s4 s5 \<and> EFFECT_STACK s5 = butlast (EFFECT_STACK s4))"

text \<open>What was logged between two states.\<close>

definition events_since :: "state \<Rightarrow> state \<Rightarrow> event list" where
  "events_since st st' = drop (length (trace st)) (trace st')"

text \<open>User code that writes no signal, assigns no property and calls no disposer.\<close>

inductive reads_only :: "prog \<Rightarrow> bool" where
  "reads_only (Return v)"
| "reads_only (Throw v)"
| "(\<And>v. reads_only (k v)) \<Longrightarrow> reads_only (Get s k)"
| "(\<And>r. reads_only (kp r)) \<Longrightarrow> reads_only (StateGet ob p kp)"
| "(\<And>n. reads_only (k n)) \<Longrightarrow> reads_only (Push v k)"

text \<open>
  The computations entered, in order; the user functions called without arguments (bodies,
  cleanups, signal listeners), in order; the user calls that passed arguments (global
  listeners, updaters), in order.
\<close>

fun run_events :: "event list \<Rightarrow> sub list" where
  "run_events [] = []"
| "run_events (Run r # evs) = r # run_events evs"
| "run_events (ev # evs) = run_events evs"

fun plain_calls :: "event list \<Rightarrow> fid list" where
  "plain_calls [] = []"
| "plain_calls (Invoke g a # evs) = (if a = [] then g # plain_calls evs else plain_calls evs)"
| "plain_calls (ev # evs) = plain_calls evs"

fun arg_calls :: "event list \<Rightarrow> (fid \<times> val list) list" where
  "arg_calls [] = []"
| "arg_calls (Invoke g a # evs) = (if a = [] then arg_calls evs else (g, a) # arg_calls evs)"
| "arg_calls (ev # evs) = arg_calls evs"

text \<open>
  \<open>psum st st' rs zs cs\<close>: between \<open>st\<close> and \<open>st'\<close> exactly the computations \<open>rs\<close> were
  entered, exactly the functions \<open>zs\<close> were called without arguments and exactly the calls
  \<open>cs\<close> passed arguments; stack, signal values, backing records, global listeners and the
  functions of the computations are as before.
\<close>

definition psum :: "state \<Rightarrow> state \<Rightarrow> sub list \<Rightarrow> fid list \<Rightarrow> (fid \<times> val list) list \<Rightarrow> bool" where
  "psum st st' rs zs cs \<longleftrightarrow>
     EFFECT_STACK st' = EFFECT_STACK st \<and> target st' = target st \<and> sig_value st' = sig_value st \<and>
     globalSubs st' = globalSubs st \<and> eff_fn st' = eff_fn st \<and> comp_fn st' = comp_fn st \<and>
     (\<exists>evs. trace st' = trace st @ evs \<and> run_events evs = rs \<and> plain_calls evs = zs \<and>
            arg_calls evs = cs)"

text \<open>A program none of whose functions writes.\<close>

definition all_reads_only :: "(fid \<Rightarrow> val list \<Rightarrow> prog) \<Rightarrow> bool" where
  "all_reads_only fenv \<longleftrightarrow> (\<forall>g a. reads_only (fenv g a))"



text \<open>What the log shows when a subscriber is called: its \<open>Run\<close>, or the listener's call.\<close>

fun delivery_event :: "sub \<Rightarrow> event" where
  "delivery_event (Listener f) = Invoke f []"
| "delivery_event r = Run r"


text \<open>The state a call came back with (\<open>initial_state\<close> when it did not come back).\<close>

definition state_of :: "('a \<times> state) option \<Rightarrow> state" where
  "state_of r = (case r of Some (x, st) \<Rightarrow> st | None \<Rightarrow> initial_state)"

text \<open>The subscribers of the PropertySignal of a property (none when it has no signal yet).\<close>

definition prop_subscribers :: "state \<Rightarrow> oid \<Rightarrow> pname \<Rightarrow> sub list" where
  "prop_subscribers st ob p =
     (case STATE_PROP_SIGNALS st ob of
        None \<Rightarrow> []
      | Some m \<Rightarrow> (case m p of None \<Rightarrow> [] | Some sig \<Rightarrow> subs st sig))"

text \<open>
  Function 0 is the updater \<^verbatim>\<open>x => x + 1\<close>; every other function returns itself
  (\<^verbatim>\<open>function f() { return f }\<close>). One signal, created with 0.
\<close>

definition updater_prog :: "fid \<Rightarrow> val list \<Rightarrow> prog" where
  "updater_prog f args =
     (if f = 0 then (case args of [VNum n] \<Rightarrow> Return (VNum (n + 1)) | _ \<Rightarrow> Return VUndefined)
      else Return (VFun f))"

definition updater_start :: state where
  "updater_start = snd (createSignal (VNum 0) initial_state)"

definition updater_after :: state where
  "updater_after = updater_start\<lparr>sig_value := (sig_value updater_start)(0 := VFun 7), trace := [Invoke 7 [VNum 0]]\<rparr>"

text \<open>
  A state object whose initial record has a field named \<^verbatim>\<open>__isState\<close>, with one global
  listener that records the old value it is given:
  \<^verbatim>\<open>const s = $state({ __isState: "mine", count: 0 }); s.subscribe((k, old, v) => seen.push(old))\<close>.
\<close>

definition flagged_object :: "oid \<times> state" where
  "flagged_object =
     state_create [Abs_pname ''__isState'' \<mapsto> VStr ''mine'', Abs_pname ''count'' \<mapsto> VNum 0] initial_state"

definition flagged_prog :: "fid \<Rightarrow> val list \<Rightarrow> prog" where
  "flagged_prog f args =
     (case args of [k, old, v] \<Rightarrow> Push old (\<lambda>n. Return VUndefined) | _ \<Rightarrow> Return VUndefined)"

definition flagged_listening :: state where
  "flagged_listening = state_subscribe (fst flagged_object) 0 (snd flagged_object)"

definition flagged_written :: state where
  "flagged_written =
     (case handler_set (call_fuel flagged_prog 1) (fst flagged_object) (Abs_pname ''__isState'') (VNum 1)
             flagged_listening of
        Some st \<Rightarrow> st
      | None \<Rightarrow> initial_state)"





















text \<open>
  An effect disposed by another effect while a notification is under way:
  \<^verbatim>\<open>createEffect(() => { if (s() === 1) d1() }); const d1 = createEffect(() => { s(); seen.push("ran") })\<close>,
  then \<^verbatim>\<open>setS(1)\<close>, then \<^verbatim>\<open>setS(2)\<close>.
\<close>

definition snapshot_prog :: "fid \<Rightarrow> val list \<Rightarrow> prog" where
  "snapshot_prog f args =
     (if f = 0 then Get 0 (\<lambda>v. if v = VNum 1 then Dispose 1 (Return VUndefined) else Return VUndefined)
      else Get 0 (\<lambda>v. Push (VStr ''ran'') (\<lambda>n. Return VUndefined)))"

definition snapshot_created :: state where
  "snapshot_created =
     state_of (createEffect (call_fuel snapshot_prog 1) (VFun 1)
       (state_of (createEffect (call_fuel snapshot_prog 1) (VFun 0) (snd (createSignal (VNum 0) initial_state)))))"

definition snapshot_disposed :: state where
  "snapshot_disposed = state_of (signal_set (call_fuel snapshot_prog 1) 0 (VNum 1) snapshot_created)"

definition snapshot_written :: state where
  "snapshot_written = state_of (signal_set (call_fuel snapshot_prog 1) 0 (VNum 2) snapshot_disposed)"
























section \<open>Properties of the model\<close>

lemma Rep_pname_Abs [simp]:
  "s \<notin> set object_prototype_names \<Longrightarrow> Rep_pname (Abs_pname s) = s"
  by (simp add: Abs_pname_inverse)

lemma Abs_pname_eq [simp]:
  "s \<notin> set object_prototype_names \<Longrightarrow> t \<notin> set object_prototype_names \<Longrightarrow>
     Abs_pname s = Abs_pname t \<longleftrightarrow> s = t"
  by (simp add: Abs_pname_inject)

lemma strict_eq_same: "strict_eq v v \<longleftrightarrow> v \<noteq> VNaN"
  by (simp add: strict_eq_def)

lemma follow_append [simp]: "follow r k (xs @ ys) b = follow r k ys (follow r k xs b)"
  by (induction xs arbitrary: b) simp_all

lemma follow_quiet:
  "Run r \<notin> set evs \<Longrightarrow> Disposed r \<notin> set evs \<Longrightarrow> follow r k evs b \<longleftrightarrow> b \<or> Tracked r k \<in> set evs"
  by (induction evs arbitrary: b) auto

lemma follow_False:
  "Run r \<notin> set evs \<Longrightarrow> Disposed r \<notin> set evs \<Longrightarrow> follow r k evs False \<longleftrightarrow> Tracked r k \<in> set evs"
  by (simp add: follow_quiet)

lemma rel_refl: "rel A a st [] st"
  by (simp add: rel_def)

lemma rel_frameD:
  assumes "rel A a st evs st'"
  shows "trace st' = trace st @ evs" and "\<exists>ts. timers st' = timers st @ ts"
    and "globalSubs st' = globalSubs st" and "eff_fn st' = eff_fn st" and "comp_fn st' = comp_fn st"
    and "\<And>c. comp_dirty st' c \<Longrightarrow> comp_dirty st c"
proof -
  note R = assms[unfolded rel_def]
  show "trace st' = trace st @ evs" by (rule R[THEN conjunct1])
  show "\<exists>ts. timers st' = timers st @ ts" by (rule R[THEN conjunct2, THEN conjunct1])
  show "globalSubs st' = globalSubs st" by (rule R[THEN conjunct2, THEN conjunct2, THEN conjunct1])
  show "eff_fn st' = eff_fn st" by (rule R[THEN conjunct2, THEN conjunct2, THEN conjunct2, THEN conjunct1])
  show "comp_fn st' = comp_fn st"
    by (rule R[THEN conjunct2, THEN conjunct2, THEN conjunct2, THEN conjunct2, THEN conjunct1])
  show "\<And>c. comp_dirty st' c \<Longrightarrow> comp_dirty st c"
    by (rule R[THEN conjunct2, THEN conjunct2, THEN conjunct2, THEN conjunct2, THEN conjunct2, THEN conjunct1,
          rule_format])
qed

lemma rel_consD:
  assumes "rel A a st evs st'" and "consistent st"
  shows "consistent st'"
    and "\<And>r k. is_comp r \<Longrightarrow> (r \<in> set (subs st' k) \<longleftrightarrow> follow r k evs (r \<in> set (subs st k)))"
    and "\<And>r k. Run r \<notin> set evs \<Longrightarrow> r \<in> set (subs st' k) \<Longrightarrow> r \<in> set (subs st k) \<or> Tracked r k \<in> set evs"
    and "\<And>r k. Run r \<notin> set evs \<Longrightarrow> Disposed r \<notin> set evs \<Longrightarrow>
               r \<in> set (subs st k) \<or> Tracked r k \<in> set evs \<Longrightarrow> r \<in> set (subs st' k)"
    and "\<And>r k. Tracked r k \<in> set evs \<Longrightarrow> a = Some r \<or> Run r \<in> set evs"
    and "\<And>r. Run r \<in> set evs \<Longrightarrow> is_comp r \<and> (r \<in> A \<or> (\<exists>k. r \<in> set (subs st k)) \<or> a = Some r)"
proof -
  note R = assms(1)[unfolded rel_def, THEN conjunct2, THEN conjunct2, THEN conjunct2, THEN conjunct2,
      THEN conjunct2, THEN conjunct2, rule_format, OF assms(2)]
  show "consistent st'" by (rule R[THEN conjunct1])
  show "\<And>r k. is_comp r \<Longrightarrow> (r \<in> set (subs st' k) \<longleftrightarrow> follow r k evs (r \<in> set (subs st k)))"
    by (rule R[THEN conjunct2, THEN conjunct1, rule_format])
  show "\<And>r k. Run r \<notin> set evs \<Longrightarrow> r \<in> set (subs st' k) \<Longrightarrow> r \<in> set (subs st k) \<or> Tracked r k \<in> set evs"
    by (rule R[THEN conjunct2, THEN conjunct2, THEN conjunct1, rule_format])
  show "\<And>r k. Run r \<notin> set evs \<Longrightarrow> Disposed r \<notin> set evs \<Longrightarrow>
               r \<in> set (subs st k) \<or> Tracked r k \<in> set evs \<Longrightarrow> r \<in> set (subs st' k)"
    by (rule R[THEN conjunct2, THEN conjunct2, THEN conjunct2, THEN conjunct1, rule_format])
  show "\<And>r k. Tracked r k \<in> set evs \<Longrightarrow> a = Some r \<or> Run r \<in> set evs"
    by (rule R[THEN conjunct2, THEN conjunct2, THEN conjunct2, THEN conjunct2, THEN conjunct1, rule_format])
  show "\<And>r. Run r \<in> set evs \<Longrightarrow> is_comp r \<and> (r \<in> A \<or> (\<exists>k. r \<in> set (subs st k)) \<or> a = Some r)"
    by (rule R[THEN conjunct2, THEN conjunct2, THEN conjunct2, THEN conjunct2, THEN conjunct2, rule_format])
qed

lemma relI:
  assumes "trace st' = trace st @ evs" and "\<exists>ts. timers st' = timers st @ ts"
    and "globalSubs st' = globalSubs st" and "eff_fn st' = eff_fn st" and "comp_fn st' = comp_fn st"
    and "\<And>c. comp_dirty st' c \<Longrightarrow> comp_dirty st c"
    and "consistent st \<Longrightarrow> consistent st'"
    and "\<And>r k. consistent st \<Longrightarrow> is_comp r \<Longrightarrow> (r \<in> set (subs st' k) \<longleftrightarrow> follow r k evs (r \<in> set (subs st k)))"
    and "\<And>r k. consistent st \<Longrightarrow> Run r \<notin> set evs \<Longrightarrow> r \<in> set (subs st' k) \<Longrightarrow>
               r \<in> set (subs st k) \<or> Tracked r k \<in> set evs"
    and "\<And>r k. consistent st \<Longrightarrow> Run r \<notin> set evs \<Longrightarrow> Disposed r \<notin> set evs \<Longrightarrow>
               r \<in> set (subs st k) \<or> Tracked r k \<in> set evs \<Longrightarrow> r \<in> set (subs st' k)"
    and "\<And>r k. consistent st \<Longrightarrow> Tracked r k \<in> set evs \<Longrightarrow> a = Some r \<or> Run r \<in> set evs"
    and "\<And>r. consistent st \<Longrightarrow> Run r \<in> set evs \<Longrightarrow>
               is_comp r \<and> (r \<in> A \<or> (\<exists>k. r \<in> set (subs st k)) \<or> a = Some r)"
  shows "rel A a st evs st'"
  unfolding rel_def
proof (intro conjI impI allI)
  show "trace st' = trace st @ evs" by fact
  show "\<exists>ts. timers st' = timers st @ ts" by fact
  show "globalSubs st' = globalSubs st" by fact
  show "eff_fn st' = eff_fn st" by fact
  show "comp_fn st' = comp_fn st" by fact
  show "comp_dirty st c" if "comp_dirty st' c" for c using that by (rule assms(6))
  show "consistent st'" if "consistent st" using that by (rule assms(7))
  show "r \<in> set (subs st' k) \<longleftrightarrow> follow r k evs (r \<in> set (subs st k))"
    if "consistent st" "is_comp r" for r k using that by (rule assms(8))
  show "r \<in> set (subs st k) \<or> Tracked r k \<in> set evs"
    if "consistent st" "Run r \<notin> set evs" "r \<in> set (subs st' k)" for r k using that by (rule assms(9))
  show "r \<in> set (subs st' k)"
    if "consistent st" "Run r \<notin> set evs" "Disposed r \<notin> set evs"
      "r \<in> set (subs st k) \<or> Tracked r k \<in> set evs" for r k using that by (rule assms(10))
  show "a = Some r \<or> Run r \<in> set evs" if "consistent st" "Tracked r k \<in> set evs" for r k
    using that by (rule assms(11))
  show "is_comp r" if "consistent st" "Run r \<in> set evs" for r using assms(12)[OF that] by simp
  show "r \<in> A \<or> (\<exists>k. r \<in> set (subs st k)) \<or> a = Some r" if "consistent st" "Run r \<in> set evs" for r
    using assms(12)[OF that] by simp
qed

lemma rel_trans:
  assumes 1: "rel A a st evs1 st1" and 2: "rel B b st1 evs2 st2"
    and b: "b = a \<or> (\<exists>r. b = Some r \<and> Run r \<in> set evs1)"
  shows "rel (A \<union> B) a st (evs1 @ evs2) st2"
proof (rule relI)
  note F1 = rel_frameD[OF 1] and F2 = rel_frameD[OF 2]
  show "trace st2 = trace st @ evs1 @ evs2" using F1(1) F2(1) by simp
  show "\<exists>ts. timers st2 = timers st @ ts" using F1(2) F2(2) by auto
  show "globalSubs st2 = globalSubs st" using F1(3) F2(3) by simp
  show "eff_fn st2 = eff_fn st" using F1(4) F2(4) by simp
  show "comp_fn st2 = comp_fn st" using F1(5) F2(5) by simp
  show "comp_dirty st c" if "comp_dirty st2 c" for c using F1(6)[OF F2(6)[OF that]] .
next
  assume c: "consistent st"
  note C1 = rel_consD[OF 1 c]
  note C2 = rel_consD[OF 2 C1(1)]
  show "consistent st2" by (rule C2(1))
  show "r \<in> set (subs st2 k) \<longleftrightarrow> follow r k (evs1 @ evs2) (r \<in> set (subs st k))" if "is_comp r" for r k
    using C1(2)[OF that, of k] C2(2)[OF that, of k] by simp
  show "r \<in> set (subs st k) \<or> Tracked r k \<in> set (evs1 @ evs2)"
    if "Run r \<notin> set (evs1 @ evs2)" "r \<in> set (subs st2 k)" for r k
  proof -
    from that have n1: "Run r \<notin> set evs1" and n2: "Run r \<notin> set evs2" by auto
    from C2(3)[OF n2 that(2)] have "r \<in> set (subs st1 k) \<or> Tracked r k \<in> set evs2" .
    then show ?thesis using C1(3)[OF n1, of k] by auto
  qed
  show "r \<in> set (subs st2 k)"
    if "Run r \<notin> set (evs1 @ evs2)" "Disposed r \<notin> set (evs1 @ evs2)"
      "r \<in> set (subs st k) \<or> Tracked r k \<in> set (evs1 @ evs2)" for r k
  proof -
    from that have n1: "Run r \<notin> set evs1" "Disposed r \<notin> set evs1"
      and n2: "Run r \<notin> set evs2" "Disposed r \<notin> set evs2" by auto
    from that(3) consider "r \<in> set (subs st k) \<or> Tracked r k \<in> set evs1" | "Tracked r k \<in> set evs2"
      by auto
    then show ?thesis
    proof cases
      case 1
      from C1(4)[OF n1 1] have "r \<in> set (subs st1 k)" .
      then show ?thesis using C2(4)[OF n2, of k] by simp
    next
      case 2
      then show ?thesis using C2(4)[OF n2, of k] by simp
    qed
  qed
  show "a = Some r \<or> Run r \<in> set (evs1 @ evs2)" if "Tracked r k \<in> set (evs1 @ evs2)" for r k
  proof -
    from that consider "Tracked r k \<in> set evs1" | "Tracked r k \<in> set evs2" by auto
    then show ?thesis
    proof cases
      case 1 then show ?thesis using C1(5)[OF 1] by auto
    next
      case 2 then show ?thesis using C2(5)[OF 2] b by auto
    qed
  qed
  show "is_comp r \<and> (r \<in> A \<union> B \<or> (\<exists>k. r \<in> set (subs st k)) \<or> a = Some r)"
    if "Run r \<in> set (evs1 @ evs2)" for r
  proof -
    from that consider "Run r \<in> set evs1" | "Run r \<notin> set evs1" "Run r \<in> set evs2" by auto
    then show ?thesis
    proof cases
      case 1 then show ?thesis using C1(6)[OF 1] by blast
    next
      case 2
      from C2(6)[OF 2(2)] have ic: "is_comp r"
        and d: "r \<in> B \<or> (\<exists>k. r \<in> set (subs st1 k)) \<or> b = Some r" by auto
      from d consider "r \<in> B" | k where "r \<in> set (subs st1 k)" | "b = Some r" by blast
      then show ?thesis
      proof cases
        case 1 then show ?thesis using ic by simp
      next
        case (2 k)
        from C1(3)[OF \<open>Run r \<notin> set evs1\<close> 2] have "r \<in> set (subs st k) \<or> Tracked r k \<in> set evs1" .
        then show ?thesis using C1(5)[of r k] \<open>Run r \<notin> set evs1\<close> ic by blast
      next
        case 3
        with b \<open>Run r \<notin> set evs1\<close> show ?thesis using ic by auto
      qed
    qed
  qed
qed

lemma rel_weaken:
  assumes r: "rel A a st evs st'"
    and w: "\<And>x. x \<in> A \<Longrightarrow> x \<in> B \<or> (\<exists>k. x \<in> set (subs st k)) \<or> a = Some x"
  shows "rel B a st evs st'"
proof (rule relI)
  note F = rel_frameD[OF r]
  show "trace st' = trace st @ evs" by (rule F(1))
  show "\<exists>ts. timers st' = timers st @ ts" by (rule F(2))
  show "globalSubs st' = globalSubs st" by (rule F(3))
  show "eff_fn st' = eff_fn st" by (rule F(4))
  show "comp_fn st' = comp_fn st" by (rule F(5))
  show "comp_dirty st c" if "comp_dirty st' c" for c using that by (rule F(6))
next
  assume c: "consistent st"
  note C = rel_consD[OF r c]
  show "consistent st'" by (rule C(1))
  show "r \<in> set (subs st' k) \<longleftrightarrow> follow r k evs (r \<in> set (subs st k))" if "is_comp r" for r k
    using that by (rule C(2))
  show "r \<in> set (subs st k) \<or> Tracked r k \<in> set evs" if "Run r \<notin> set evs" "r \<in> set (subs st' k)" for r k
    using that by (rule C(3))
  show "r \<in> set (subs st' k)"
    if "Run r \<notin> set evs" "Disposed r \<notin> set evs" "r \<in> set (subs st k) \<or> Tracked r k \<in> set evs" for r k
    using that by (rule C(4))
  show "a = Some r \<or> Run r \<in> set evs" if "Tracked r k \<in> set evs" for r k
    using that by (rule C(5))
  show "is_comp r \<and> (r \<in> B \<or> (\<exists>k. r \<in> set (subs st k)) \<or> a = Some r)" if "Run r \<in> set evs" for r
    using C(6)[OF that] w[of r] by blast
qed

lemma rel_mono: "rel A a st evs st' \<Longrightarrow> A \<subseteq> B \<Longrightarrow> rel B a st evs st'"
  by (rule rel_weaken) auto

lemma rel_absorb:
  "rel A a st evs st' \<Longrightarrow> (\<forall>r\<in>A. \<exists>k. r \<in> set (subs st k)) \<Longrightarrow> rel {} a st evs st'"
  by (rule rel_weaken) auto

lemma consistent_cong:
  "subs st' = subs st \<Longrightarrow> EFFECT_DEPS st' = EFFECT_DEPS st \<Longrightarrow> n_propkeys st' = n_propkeys st \<Longrightarrow>
   STATE_PROP_SIGNALS st' = STATE_PROP_SIGNALS st \<Longrightarrow> consistent st' = consistent st"
  by (simp add: consistent_def dep_keys_def)

lemma rel_quiet:
  assumes "trace st' = trace st" "\<exists>ts. timers st' = timers st @ ts" "subs st' = subs st"
    "EFFECT_DEPS st' = EFFECT_DEPS st" "n_propkeys st' = n_propkeys st"
    "STATE_PROP_SIGNALS st' = STATE_PROP_SIGNALS st"
    "globalSubs st' = globalSubs st" "eff_fn st' = eff_fn st" "comp_fn st' = comp_fn st"
    "\<forall>c. comp_dirty st' c \<longrightarrow> comp_dirty st c"
  shows "rel A a st [] st'"
proof (rule relI)
  show "consistent st'" if "consistent st"
    using that consistent_cong[OF assms(3,4,5,6)] by simp
qed (use assms in simp_all)

lemma seg_refl: "seg A st st"
  using rel_refl by (auto simp: seg_def)

lemma seg_trans:
  assumes "seg A st st1" "seg B st1 st2"
  shows "seg (A \<union> B) st st2"
proof -
  from assms(1) obtain e1 where k1: "EFFECT_STACK st1 = EFFECT_STACK st" and r1: "rel A (active st) st e1 st1"
    by (auto simp: seg_def)
  from assms(2) obtain e2 where k2: "EFFECT_STACK st2 = EFFECT_STACK st1" and r2: "rel B (active st1) st1 e2 st2"
    by (auto simp: seg_def)
  have "active st1 = active st" using k1 by (simp add: active_def)
  then have "rel (A \<union> B) (active st) st (e1 @ e2) st2" using rel_trans[OF r1 r2] by simp
  then show ?thesis using k1 k2 unfolding seg_def by auto
qed

lemma seg_mono: "seg A st st' \<Longrightarrow> A \<subseteq> B \<Longrightarrow> seg B st st'"
  unfolding seg_def using rel_mono by blast

lemma seg_quiet:
  assumes "EFFECT_STACK st' = EFFECT_STACK st" "trace st' = trace st" "\<exists>ts. timers st' = timers st @ ts" "subs st' = subs st"
    "EFFECT_DEPS st' = EFFECT_DEPS st" "n_propkeys st' = n_propkeys st"
    "STATE_PROP_SIGNALS st' = STATE_PROP_SIGNALS st"
    "globalSubs st' = globalSubs st" "eff_fn st' = eff_fn st" "comp_fn st' = comp_fn st"
    "\<forall>c. comp_dirty st' c \<longrightarrow> comp_dirty st c"
  shows "seg A st st'"
  using rel_quiet[OF assms(2-)] assms(1) by (auto simp: seg_def)

lemma log_fields:
  "trace (log ev st) = trace st @ [ev]"
  "timers (log ev st) = timers st"
  "EFFECT_STACK (log ev st) = EFFECT_STACK st"
  "n_propkeys (log ev st) = n_propkeys st"
  "STATE_PROP_SIGNALS (log ev st) = STATE_PROP_SIGNALS st"
  "EFFECT_DEPS (log ev st) = EFFECT_DEPS st"
  "subs (log ev st) = subs st"
  "target (log ev st) = target st"
  "eff_cleanup (log ev st) = eff_cleanup st"
  "eff_fn (log ev st) = eff_fn st"
  "comp_cleanup (log ev st) = comp_cleanup st"
  "comp_fn (log ev st) = comp_fn st"
  "active (log ev st) = active st"
  "dep_keys (log ev st) = dep_keys st"
  "globalSubs (log ev st) = globalSubs st"
  "comp_dirty (log ev st) = comp_dirty st"
  "sig_value (log ev st) = sig_value st"
  by (simp_all add: log_def active_def dep_keys_def fun_eq_iff)

lemma consistent_log: "consistent (log ev st) = consistent st"
  by (rule consistent_cong) (simp_all add: log_fields)

lemma fold_unsubscribe_one:
  "fold (unsubscribe_one r) ks st =
     st\<lparr>subs := (\<lambda>k. if k \<in> set ks then removeAll r (subs st k) else subs st k)\<rparr>"
proof (induction ks arbitrary: st)
  case Nil
  then show ?case by simp
next
  case (Cons k ks)
  have "fold (unsubscribe_one r) (k # ks) st = fold (unsubscribe_one r) ks (unsubscribe_one r k st)"
    by simp
  also have "\<dots> = (unsubscribe_one r k st)\<lparr>subs := (\<lambda>k'. if k' \<in> set ks
        then removeAll r (subs (unsubscribe_one r k st) k') else subs (unsubscribe_one r k st) k')\<rparr>"
    by (rule Cons.IH)
  also have "\<dots> = st\<lparr>subs := (\<lambda>k'. if k' \<in> set (k # ks) then removeAll r (subs st k') else subs st k')\<rparr>"
    by (auto simp: unsubscribe_one_def set_delete_def fun_eq_iff)
  finally show ?case .
qed

lemma unsubscribe_deps_fields:
  "trace (unsubscribe_deps r st) = trace st"
  "timers (unsubscribe_deps r st) = timers st"
  "EFFECT_STACK (unsubscribe_deps r st) = EFFECT_STACK st"
  "n_propkeys (unsubscribe_deps r st) = n_propkeys st"
  "STATE_PROP_SIGNALS (unsubscribe_deps r st) = STATE_PROP_SIGNALS st"
  "EFFECT_DEPS (unsubscribe_deps r st) = (EFFECT_DEPS st)(r := None)"
  "subs (unsubscribe_deps r st) k = (if k \<in> dep_keys st r then removeAll r (subs st k) else subs st k)"
  "eff_cleanup (unsubscribe_deps r st) = eff_cleanup st"
  "eff_fn (unsubscribe_deps r st) = eff_fn st"
  "comp_cleanup (unsubscribe_deps r st) = comp_cleanup st"
  "comp_fn (unsubscribe_deps r st) = comp_fn st"
  "globalSubs (unsubscribe_deps r st) = globalSubs st"
  "comp_dirty (unsubscribe_deps r st) = comp_dirty st"
  by (auto simp: unsubscribe_deps_def fold_unsubscribe_one dep_keys_def Let_def split: option.splits)

lemma consistent_unsubscribe:
  assumes "consistent st"
  shows "consistent (unsubscribe_deps r st)"
    and "is_comp r \<Longrightarrow> r \<notin> set (subs (unsubscribe_deps r st) k)"
    and "r' \<noteq> r \<Longrightarrow> r' \<in> set (subs (unsubscribe_deps r st) k) \<longleftrightarrow> r' \<in> set (subs st k)"
  using assms
  by (auto simp: consistent_def unsubscribe_deps_fields dep_keys_def distinct_removeAll split: if_splits)

lemma rel_run_unsub:
  assumes "is_comp r"
  shows "rel {r} a st [Run r] (unsubscribe_deps r (log (Run r) st))"
proof (rule relI)
  let ?s = "log (Run r) st"
  assume c: "consistent st"
  then have cs: "consistent ?s" by (simp add: consistent_log)
  have U1: "consistent (unsubscribe_deps r ?s)" by (rule consistent_unsubscribe(1)[OF cs])
  have U2: "r \<notin> set (subs (unsubscribe_deps r ?s) k)" for k
    by (rule consistent_unsubscribe(2)[OF cs assms])
  have U3: "x \<in> set (subs (unsubscribe_deps r ?s) k) \<longleftrightarrow> x \<in> set (subs st k)" if "x \<noteq> r" for x k
    using consistent_unsubscribe(3)[OF cs that, of k] by (simp add: log_fields)
  show "consistent (unsubscribe_deps r ?s)" by (rule U1)
  show "x \<in> set (subs (unsubscribe_deps r ?s) k) \<longleftrightarrow> follow x k [Run r] (x \<in> set (subs st k))"
    if "is_comp x" for x k
    using U2[of k] U3[of x k] by (cases "x = r") auto
  show "x \<in> set (subs st k) \<or> Tracked x k \<in> set [Run r]"
    if "Run x \<notin> set [Run r]" "x \<in> set (subs (unsubscribe_deps r ?s) k)" for x k
    using that U3[of x k] by auto
  show "x \<in> set (subs (unsubscribe_deps r ?s) k)"
    if "Run x \<notin> set [Run r]" "Disposed x \<notin> set [Run r]"
      "x \<in> set (subs st k) \<or> Tracked x k \<in> set [Run r]" for x k
    using that U3[of x k] by auto
  show "a = Some x \<or> Run x \<in> set [Run r]" if "Tracked x k \<in> set [Run r]" for x k
    using that by simp
  show "is_comp x \<and> (x \<in> {r} \<or> (\<exists>k. x \<in> set (subs st k)) \<or> a = Some x)" if "Run x \<in> set [Run r]" for x
    using that assms by simp
qed (simp_all add: unsubscribe_deps_fields log_fields)

lemma rel_dispose_unsub:
  assumes "is_comp r"
  shows "rel A a st [Disposed r] (unsubscribe_deps r (log (Disposed r) st))"
proof (rule relI)
  let ?s = "log (Disposed r) st"
  assume c: "consistent st"
  then have cs: "consistent ?s" by (simp add: consistent_log)
  have U1: "consistent (unsubscribe_deps r ?s)" by (rule consistent_unsubscribe(1)[OF cs])
  have U2: "r \<notin> set (subs (unsubscribe_deps r ?s) k)" for k
    by (rule consistent_unsubscribe(2)[OF cs assms])
  have U3: "x \<in> set (subs (unsubscribe_deps r ?s) k) \<longleftrightarrow> x \<in> set (subs st k)" if "x \<noteq> r" for x k
    using consistent_unsubscribe(3)[OF cs that, of k] by (simp add: log_fields)
  show "consistent (unsubscribe_deps r ?s)" by (rule U1)
  show "x \<in> set (subs (unsubscribe_deps r ?s) k) \<longleftrightarrow> follow x k [Disposed r] (x \<in> set (subs st k))"
    if "is_comp x" for x k
    using U2[of k] U3[of x k] by (cases "x = r") auto
  show "x \<in> set (subs st k) \<or> Tracked x k \<in> set [Disposed r]"
    if "Run x \<notin> set [Disposed r]" "x \<in> set (subs (unsubscribe_deps r ?s) k)" for x k
    using that by (auto simp: unsubscribe_deps_fields log_fields split: if_splits)
  show "x \<in> set (subs (unsubscribe_deps r ?s) k)"
    if "Run x \<notin> set [Disposed r]" "Disposed x \<notin> set [Disposed r]"
      "x \<in> set (subs st k) \<or> Tracked x k \<in> set [Disposed r]" for x k
    using that U3[of x k] by auto
  show "a = Some x \<or> Run x \<in> set [Disposed r]" if "Tracked x k \<in> set [Disposed r]" for x k
    using that by simp
  show "is_comp x \<and> (x \<in> A \<or> (\<exists>k. x \<in> set (subs st k)) \<or> a = Some x)" if "Run x \<in> set [Disposed r]" for x
    using that by simp
qed (simp_all add: unsubscribe_deps_fields log_fields)

lemma trackDependency_fields:
  "trace (trackDependency r k st) = trace st"
  "timers (trackDependency r k st) = timers st"
  "EFFECT_STACK (trackDependency r k st) = EFFECT_STACK st"
  "n_propkeys (trackDependency r k st) = n_propkeys st"
  "STATE_PROP_SIGNALS (trackDependency r k st) = STATE_PROP_SIGNALS st"
  "target (trackDependency r k st) = target st"
  "globalSubs (trackDependency r k st) = globalSubs st"
  "eff_fn (trackDependency r k st) = eff_fn st"
  "comp_fn (trackDependency r k st) = comp_fn st"
  "comp_dirty (trackDependency r k st) = comp_dirty st"
  by (simp_all add: trackDependency_def Let_def)

lemma trackDependency_subs:
  "x \<in> set (subs (trackDependency r k st) k') \<longleftrightarrow> x \<in> set (subs st k') \<or> (x = r \<and> k' = k)"
  by (auto simp: trackDependency_def Let_def)

lemma trackDependency_subs_other:
  "k' \<noteq> k \<Longrightarrow> subs (trackDependency r k st) k' = subs st k'"
  by (auto simp: trackDependency_def Let_def)

lemma trackDependency_dep_keys:
  "dep_keys (trackDependency r k st) r' = (if r' = r then insert k (dep_keys st r) else dep_keys st r')"
  by (auto simp: trackDependency_def Let_def dep_keys_def set_add_def split: option.splits)

lemma consistent_track:
  assumes "consistent st" "\<forall>i. k = PropKey i \<longrightarrow> i < n_propkeys st"
  shows "consistent (trackDependency r k st)"
  unfolding consistent_def
proof (intro conjI allI impI)
  fix r' k' assume "is_comp r'" "r' \<in> set (subs (trackDependency r k st) k')"
  then show "k' \<in> dep_keys (trackDependency r k st) r'"
    using assms(1) by (auto simp: trackDependency_subs trackDependency_dep_keys consistent_def)
next
  fix k' show "distinct (subs (trackDependency r k st) k')"
    using assms(1) by (auto simp: trackDependency_def Let_def consistent_def)
next
  fix i assume "n_propkeys (trackDependency r k st) \<le> i"
  then have "n_propkeys st \<le> i" by (simp add: trackDependency_fields)
  moreover from this assms(2) have "PropKey i \<noteq> k" by auto
  ultimately show "subs (trackDependency r k st) (PropKey i) = []"
    using assms(1) by (simp add: trackDependency_subs_other consistent_def)
next
  fix ob m p k' assume "STATE_PROP_SIGNALS (trackDependency r k st) ob = Some m" "m p = Some k'"
  then show "\<exists>i<n_propkeys (trackDependency r k st). k' = PropKey i"
    using assms(1) unfolding consistent_def trackDependency_fields by blast
qed

lemma rel_track:
  assumes "consistent st \<longrightarrow> (\<forall>i. k = PropKey i \<longrightarrow> i < n_propkeys st)"
  shows "rel A (Some r) st [Tracked r k] (trackDependency r k (log (Tracked r k) st))"
proof (rule relI)
  let ?s = "log (Tracked r k) st"
  assume c: "consistent st"
  show "consistent (trackDependency r k ?s)"
  proof (rule consistent_track)
    show "consistent ?s" using c by (simp add: consistent_log)
    show "\<forall>i. k = PropKey i \<longrightarrow> i < n_propkeys ?s" using c assms by (simp add: log_fields)
  qed
  show "x \<in> set (subs (trackDependency r k ?s) k') \<longleftrightarrow> follow x k' [Tracked r k] (x \<in> set (subs st k'))"
    for x k'
    by (auto simp: trackDependency_subs log_fields)
  show "x \<in> set (subs st k') \<or> Tracked x k' \<in> set [Tracked r k]"
    if "x \<in> set (subs (trackDependency r k ?s) k')" for x k'
    using that by (auto simp: trackDependency_subs log_fields)
  show "x \<in> set (subs (trackDependency r k ?s) k')"
    if "x \<in> set (subs st k') \<or> Tracked x k' \<in> set [Tracked r k]" for x k'
    using that by (auto simp: trackDependency_subs log_fields)
  show "Some r = Some x \<or> Run x \<in> set [Tracked r k]" if "Tracked x k' \<in> set [Tracked r k]" for x k'
    using that by simp
  show "is_comp x \<and> (x \<in> A \<or> (\<exists>k. x \<in> set (subs st k)) \<or> Some r = Some x)"
    if "Run x \<in> set [Tracked r k]" for x
    using that by simp
qed (simp_all add: trackDependency_fields log_fields)

lemma signal_get_fields:
  "EFFECT_STACK (snd (signal_get s st)) = EFFECT_STACK st"
  by (simp add: signal_get_def trackDependency_def log_def Let_def split: option.splits)

lemma signal_get_seg: "seg A st (snd (signal_get s st))"
proof (cases "active st")
  case None
  then show ?thesis using seg_refl by (simp add: signal_get_def)
next
  case (Some r)
  have "rel A (Some r) st [Tracked r (SignalKey s)]
          (trackDependency r (SignalKey s) (log (Tracked r (SignalKey s)) st))"
    by (rule rel_track) simp
  then show ?thesis
    using Some signal_get_fields[of s st] unfolding seg_def by (auto simp: signal_get_def)
qed

lemma quiet_rel: "quiet st st' \<Longrightarrow> rel A a st [] st'"
  unfolding quiet_def by (intro rel_quiet) auto

lemma quiet_seg: "quiet st st' \<Longrightarrow> EFFECT_STACK st' = EFFECT_STACK st \<Longrightarrow> seg A st st'"
  unfolding seg_def using quiet_rel[of st st' A "active st"] by blast

lemma seg_trans0: "seg {} st st1 \<Longrightarrow> seg {} st1 st2 \<Longrightarrow> seg {} st st2"
  using seg_trans[of "{}" st st1 "{}" st2] by simp

lemma active_push [simp]: "EFFECT_STACK s' = EFFECT_STACK s @ [r] \<Longrightarrow> active s' = Some r"
  by (simp add: active_def)

lemma active_cong: "EFFECT_STACK s' = EFFECT_STACK s \<Longrightarrow> active s' = active s"
  by (simp add: active_def)

lemma enteredI:
  assumes r: "is_comp r"
    and c: "seg {} (unsubscribe_deps r (log (Run r) st)) s2"
    and q1: "quiet s2 s3" "EFFECT_STACK s3 = EFFECT_STACK s2 @ [r]"
    and b: "seg {} s3 s4"
    and q2: "quiet s4 s5" "EFFECT_STACK s5 = butlast (EFFECT_STACK s4)"
  shows "entered r st s5"
  unfolding entered_def using assms by blast

lemma enter_rel:
  assumes "entered r st s5"
  shows "EFFECT_STACK s5 = EFFECT_STACK st"
    and "\<exists>evc evb s2 s3 s4.
           rel {r} (active st) st ([Run r] @ evc @ evb) s5 \<and>
           rel {} (active st) (unsubscribe_deps r (log (Run r) st)) evc s2 \<and>
           subs s3 = subs s2 \<and>
           rel {} (Some r) s3 evb s4 \<and> subs s5 = subs s4 \<and>
           (consistent st \<longrightarrow> consistent s3)"
proof -
  from assms obtain s2 s3 s4 where r: "is_comp r"
    and c: "seg {} (unsubscribe_deps r (log (Run r) st)) s2"
    and q1: "quiet s2 s3" "EFFECT_STACK s3 = EFFECT_STACK s2 @ [r]"
    and b: "seg {} s3 s4"
    and q2: "quiet s4 s5" "EFFECT_STACK s5 = butlast (EFFECT_STACK s4)"
    unfolding entered_def by blast
  let ?a = "active st"
  let ?s1 = "unsubscribe_deps r (log (Run r) st)"
  have st1: "EFFECT_STACK ?s1 = EFFECT_STACK st"
    by (simp add: unsubscribe_deps_fields log_fields)
  then have a1: "active ?s1 = ?a" by (rule active_cong)
  from c obtain evc where st2: "EFFECT_STACK s2 = EFFECT_STACK st" and rc: "rel {} ?a ?s1 evc s2"
    using st1 a1 by (auto simp: seg_def)
  from b obtain evb where st4: "EFFECT_STACK s4 = EFFECT_STACK s3" and rb: "rel {} (Some r) s3 evb s4"
    using q1(2) by (auto simp: seg_def)
  have r0: "rel {r} ?a st [Run r] ?s1" by (rule rel_run_unsub[OF r])
  from rel_trans[OF r0 rc] have r2: "rel {r} ?a st ([Run r] @ evc) s2" by simp
  from rel_trans[OF r2 quiet_rel[OF q1(1), of "{}" ?a]]
  have r3: "rel {r} ?a st ([Run r] @ evc) s3" by simp
  from rel_trans[OF r3 rb] have "rel {r} ?a st (([Run r] @ evc) @ evb) s4" by simp
  from rel_trans[OF this quiet_rel[OF q2(1), of "{}" ?a]]
  have r5: "rel {r} ?a st ([Run r] @ evc @ evb) s5" by simp
  show "EFFECT_STACK s5 = EFFECT_STACK st"
    using q2(2) st4 q1(2) st2 by simp
  have "consistent st \<longrightarrow> consistent s3" using r3 by (simp add: rel_def)
  moreover have "subs s3 = subs s2" "subs s5 = subs s4" using q1(1) q2(1) by (simp_all add: quiet_def)
  ultimately show "\<exists>evc evb s2 s3 s4.
           rel {r} (active st) st ([Run r] @ evc @ evb) s5 \<and>
           rel {} (active st) (unsubscribe_deps r (log (Run r) st)) evc s2 \<and>
           subs s3 = subs s2 \<and>
           rel {} (Some r) s3 evb s4 \<and> subs s5 = subs s4 \<and>
           (consistent st \<longrightarrow> consistent s3)"
    using r5 rc rb by blast
qed

lemma enter_seg:
  assumes "entered r st s5"
  shows "seg {r} st s5"
  using enter_rel[OF assms] unfolding seg_def by blast

lemma run_cleanup_seg:
  assumes "good call" "run_cleanup call rep c st = Some st'"
  shows "seg {} st st'"
proof (cases c)
  case (VFun f)
  with assms(2) obtain res s1 where cl: "call f [] st = Some (res, s1)"
    and st': "st' = (case res of Normal v \<Rightarrow> s1 | Thrown err \<Rightarrow> if rep then s1\<lparr>console := console s1 @ [err]\<rparr> else s1)"
    by (auto simp: run_cleanup_def split: option.splits completion.splits)
  from assms(1) cl have "seg {} st s1" by (auto simp: good_def)
  moreover have "seg {} s1 st'"
    unfolding st' by (rule quiet_seg) (auto simp: quiet_def split: completion.splits)
  ultimately show ?thesis by (rule seg_trans0)
qed (use assms(2) seg_refl in \<open>auto simp: run_cleanup_def\<close>)

lemma runner_entered:
  assumes g: "good call" and r: "runner call e st = Some st'"
  shows "entered (Runner e) st st'"
proof -
  let ?s1 = "unsubscribe_deps (Runner e) (log (Run (Runner e)) st)"
  from r obtain s2 where c: "run_cleanup call True (eff_cleanup ?s1 e) ?s1 = Some s2"
    by (auto simp: runner_def Let_def split: option.splits)
  let ?s3 = "push (Runner e) (s2\<lparr>eff_cleanup := (eff_cleanup s2)(e := VNull)\<rparr>)"
  from r c obtain res s4 where b: "call (eff_fn ?s3 e) [] ?s3 = Some (res, s4)"
    and st': "st' = (case res of
        Normal maybeCleanup \<Rightarrow> pop (if is_function maybeCleanup
                                then s4\<lparr>eff_cleanup := (eff_cleanup s4)(e := maybeCleanup)\<rparr> else s4)
      | Thrown err \<Rightarrow> pop (s4\<lparr>console := console s4 @ [err]\<rparr>))"
    by (auto simp: runner_def Let_def split: option.splits completion.splits)
  show ?thesis
  proof (rule enteredI[where ?s2.0 = s2 and ?s3.0 = ?s3 and ?s4.0 = s4])
    show "is_comp (Runner e)" by simp
    show "seg {} ?s1 s2" using run_cleanup_seg[OF g c] .
    show "quiet s2 ?s3" by (simp add: quiet_def push_def)
    show "EFFECT_STACK ?s3 = EFFECT_STACK s2 @ [Runner e]" by (simp add: push_def)
    show "seg {} ?s3 s4" using g b by (auto simp: good_def)
    show "quiet s4 st'" unfolding st' by (auto simp: quiet_def pop_def split: completion.splits)
    show "EFFECT_STACK st' = butlast (EFFECT_STACK s4)"
      unfolding st' by (auto simp: pop_def split: completion.splits)
  qed
qed

lemma recompute_entered:
  assumes g: "good call" and r: "recompute call c st = Some st'"
  shows "entered (Recompute c) st st'"
proof -
  let ?s1 = "unsubscribe_deps (Recompute c) (log (Run (Recompute c)) st)"
  from r obtain s2 where cl: "run_cleanup call False (comp_cleanup ?s1 c) ?s1 = Some s2"
    by (auto simp: recompute_def Let_def split: option.splits)
  let ?s3 = "push (Recompute c) (s2\<lparr>comp_cleanup := (comp_cleanup s2)(c := VNull)\<rparr>)"
  from r cl obtain res s4 where b: "call (comp_fn ?s3 c) [] ?s3 = Some (res, s4)"
    and st': "st' = (case res of
        Normal result \<Rightarrow>
          (let s5 = (if is_function result
                     then s4\<lparr>comp_cleanup := (comp_cleanup s4)(c := result)\<rparr>
                     else s4\<lparr>comp_cached := (comp_cached s4)(c := result)\<rparr>)
           in pop (s5\<lparr>comp_dirty := (comp_dirty s5)(c := False)\<rparr>))
      | Thrown err \<Rightarrow> pop (s4\<lparr>console := console s4 @ [err]\<rparr>))"
    by (auto simp: recompute_def Let_def split: option.splits completion.splits)
  show ?thesis
  proof (rule enteredI[where ?s2.0 = s2 and ?s3.0 = ?s3 and ?s4.0 = s4])
    show "is_comp (Recompute c)" by simp
    show "seg {} ?s1 s2" using run_cleanup_seg[OF g cl] .
    show "quiet s2 ?s3" by (simp add: quiet_def push_def)
    show "EFFECT_STACK ?s3 = EFFECT_STACK s2 @ [Recompute c]" by (simp add: push_def)
    show "seg {} ?s3 s4" using g b by (auto simp: good_def)
    show "quiet s4 st'" unfolding st' by (auto simp: quiet_def pop_def Let_def split: completion.splits)
    show "EFFECT_STACK st' = butlast (EFFECT_STACK s4)"
      unfolding st' by (auto simp: pop_def Let_def split: completion.splits)
  qed
qed

lemma runner_seg: "good call \<Longrightarrow> runner call e st = Some st' \<Longrightarrow> seg {Runner e} st st'"
  by (rule enter_seg[OF runner_entered])

lemma recompute_seg: "good call \<Longrightarrow> recompute call c st = Some st' \<Longrightarrow> seg {Recompute c} st st'"
  by (rule enter_seg[OF recompute_entered])

lemma invoke_entered:
  assumes "good call" "is_comp fn" "invoke call fn st = Some (res, st')"
  shows "entered fn st st'"
  using assms runner_entered recompute_entered by (cases fn) (auto simp: invoke_def)

lemma invoke_seg:
  assumes g: "good call" and r: "invoke call fn st = Some (res, st')"
  shows "seg {fn} st st'"
proof (cases fn)
  case (Runner e)
  then show ?thesis using runner_seg[OF g] r by (auto simp: invoke_def)
next
  case (Recompute c)
  then show ?thesis using recompute_seg[OF g] r by (auto simp: invoke_def)
next
  case (Listener f)
  then have "seg {} st st'" using g r by (auto simp: invoke_def good_def)
  then show ?thesis by (rule seg_mono) simp
qed

lemma notify_seg:
  assumes g: "good call"
  shows "notify call xs st = Some st' \<Longrightarrow> seg (set xs) st st'"
proof (induction xs arbitrary: st)
  case Nil
  then show ?case using seg_refl by simp
next
  case (Cons x xs)
  from Cons.prems obtain res s1 where i: "invoke call x st = Some (res, s1)"
    and n: "notify call xs (case res of Normal v \<Rightarrow> s1 | Thrown err \<Rightarrow> s1\<lparr>timers := timers s1 @ [err]\<rparr>) = Some st'"
    by (auto split: option.splits completion.splits)
  let ?s2 = "case res of Normal v \<Rightarrow> s1 | Thrown err \<Rightarrow> s1\<lparr>timers := timers s1 @ [err]\<rparr>"
  have "seg {x} st s1" by (rule invoke_seg[OF g i])
  moreover have "seg {} s1 ?s2" by (rule quiet_seg) (auto simp: quiet_def split: completion.splits)
  moreover have "seg (set xs) ?s2 st'" by (rule Cons.IH[OF n])
  ultimately have "seg (({x} \<union> {}) \<union> set xs) st st'" by (blast intro: seg_trans)
  then show ?case by simp
qed

lemma seg_absorb:
  "seg A st st' \<Longrightarrow> (\<forall>r\<in>A. \<exists>k. r \<in> set (subs st k)) \<Longrightarrow> seg {} st st'"
  unfolding seg_def using rel_absorb by blast

lemma next_value_seg:
  assumes g: "good call" and u: "next_value call s newVal st = Some (ur, s1)"
  shows "seg {} st s1"
  using u g seg_refl by (cases newVal) (auto simp: next_value_def good_def)

lemma signal_set_seg:
  assumes g: "good call" and r: "signal_set call s newVal st = Some (res, st')"
  shows "seg {} st st'"
proof -
  let ?old = "sig_value st s"
  from r obtain ur s1 where u: "next_value call s newVal st = Some (ur, s1)"
    by (auto simp: signal_set_def Let_def split: option.splits)
  have u_seg: "seg {} st s1" by (rule next_value_seg[OF g u])
  show ?thesis
  proof (cases ur)
    case (Thrown err)
    with r u have "st' = s1" by (auto simp: signal_set_def Let_def)
    with u_seg show ?thesis by simp
  next
    case (Normal v)
    let ?s2 = "s1\<lparr>sig_value := (sig_value s1)(s := v)\<rparr>"
    have q: "seg {} s1 ?s2" by (rule quiet_seg) (auto simp: quiet_def)
    show ?thesis
    proof (cases "strict_eq ?old v")
      case True
      with r u Normal have "st' = ?s2" by (auto simp: signal_set_def Let_def)
      with u_seg q show ?thesis by (auto intro: seg_trans0)
    next
      case False
      with r u Normal have n: "notify call (subs ?s2 (SignalKey s)) ?s2 = Some st'"
        by (auto simp: signal_set_def Let_def split: option.splits)
      have "seg (set (subs ?s2 (SignalKey s))) ?s2 st'" by (rule notify_seg[OF g n])
      then have "seg {} ?s2 st'" by (rule seg_absorb) blast
      with u_seg q show ?thesis by (blast intro: seg_trans0)
    qed
  qed
qed

lemma ensurePropSignalFor_rel:
  assumes "ensurePropSignalFor ob p st = (sig, st1)"
  shows "rel A a st [] st1"
    and "EFFECT_STACK st1 = EFFECT_STACK st"
    and "consistent st \<Longrightarrow> consistent st1 \<and> (\<exists>i<n_propkeys st1. sig = PropKey i)"
    and "consistent st1 \<Longrightarrow> \<exists>i<n_propkeys st1. sig = PropKey i"
proof -
  let ?m = "case STATE_PROP_SIGNALS st ob of None \<Rightarrow> (\<lambda>p. None) | Some m0 \<Rightarrow> m0"
  show "EFFECT_STACK st1 = EFFECT_STACK st"
    using assms by (auto simp: ensurePropSignalFor_def Let_def split: option.splits)
  have c: "consistent st1 \<and> (\<exists>i<n_propkeys st1. sig = PropKey i)"
    and m: "\<forall>r k. r \<in> set (subs st1 k) \<longleftrightarrow> r \<in> set (subs st k)" if cs: "consistent st"
  proof -
    show "consistent st1 \<and> (\<exists>i<n_propkeys st1. sig = PropKey i)"
    proof (cases "?m p")
      case (Some k)
      then have "st1 = st" "sig = k" using assms by (auto simp: ensurePropSignalFor_def Let_def)
      moreover from Some obtain m0 where "STATE_PROP_SIGNALS st ob = Some m0" "m0 p = Some k"
        by (auto split: option.splits)
      ultimately show ?thesis using cs unfolding consistent_def by blast
    next
      case None
      then have s1: "st1 = st\<lparr>n_propkeys := Suc (n_propkeys st),
                          subs := (subs st)(PropKey (n_propkeys st) := []),
                          STATE_PROP_SIGNALS := (STATE_PROP_SIGNALS st)(ob \<mapsto> ?m(p \<mapsto> PropKey (n_propkeys st)))\<rparr>"
        and sg: "sig = PropKey (n_propkeys st)"
        using assms by (auto simp: ensurePropSignalFor_def Let_def)
      have "consistent st1"
        unfolding consistent_def
      proof (intro conjI allI impI)
        fix r k assume "is_comp r" "r \<in> set (subs st1 k)"
        then show "k \<in> dep_keys st1 r"
          using cs unfolding s1 consistent_def dep_keys_def by (auto split: if_splits)
      next
        fix k show "distinct (subs st1 k)"
          using cs unfolding s1 consistent_def by auto
      next
        fix i assume "n_propkeys st1 \<le> i"
        then show "subs st1 (PropKey i) = []"
          using cs unfolding s1 consistent_def by auto
      next
        fix ob' m' p' k assume a: "STATE_PROP_SIGNALS st1 ob' = Some m'" "m' p' = Some k"
        show "\<exists>i<n_propkeys st1. k = PropKey i"
        proof (cases "ob' = ob")
          case True
          with a have m': "m' = ?m(p \<mapsto> PropKey (n_propkeys st))" by (simp add: s1)
          show ?thesis
          proof (cases "p' = p")
            case True
            with a m' have "k = PropKey (n_propkeys st)" by simp
            then show ?thesis by (simp add: s1)
          next
            case False
            with a m' have "?m p' = Some k" by simp
            then obtain m0 where "STATE_PROP_SIGNALS st ob = Some m0" "m0 p' = Some k"
              by (auto split: option.splits)
            with cs obtain i where "i < n_propkeys st" "k = PropKey i"
              unfolding consistent_def by blast
            then show ?thesis by (auto simp: s1)
          qed
        next
          case False
          with a have "STATE_PROP_SIGNALS st ob' = Some m'" by (simp add: s1)
          with a(2) cs obtain i where "i < n_propkeys st" "k = PropKey i"
            unfolding consistent_def by blast
          then show ?thesis by (auto simp: s1)
        qed
      qed
      then show ?thesis using sg by (simp add: s1)
    qed
    show "\<forall>r k. r \<in> set (subs st1 k) \<longleftrightarrow> r \<in> set (subs st k)"
      using assms cs unfolding consistent_def
      by (auto simp: ensurePropSignalFor_def Let_def split: option.splits if_splits)
  qed
  show "consistent st \<Longrightarrow> consistent st1 \<and> (\<exists>i<n_propkeys st1. sig = PropKey i)" using c .
  show "\<exists>i<n_propkeys st1. sig = PropKey i" if c1: "consistent st1"
  proof (cases "?m p")
    case (Some k)
    then have "st1 = st" "sig = k" using assms by (auto simp: ensurePropSignalFor_def Let_def)
    moreover from Some obtain m0 where "STATE_PROP_SIGNALS st ob = Some m0" "m0 p = Some k"
      by (auto split: option.splits)
    ultimately show ?thesis using c1 unfolding consistent_def by blast
  next
    case None
    then show ?thesis using assms by (auto simp: ensurePropSignalFor_def Let_def)
  qed
  have f: "trace st1 = trace st" "timers st1 = timers st" "globalSubs st1 = globalSubs st"
    "eff_fn st1 = eff_fn st" "comp_fn st1 = comp_fn st" "comp_dirty st1 = comp_dirty st"
    using assms by (auto simp: ensurePropSignalFor_def Let_def split: option.splits)
  show "rel A a st [] st1"
  proof (rule relI)
    show "consistent st1" if "consistent st" using c[OF that] by simp
  qed (use f m in simp_all)
qed

lemma handler_get_seg: "seg {} st (snd (handler_get ob p st))"
proof (cases "Rep_pname p = ''__isState'' \<or> Rep_pname p = ''subscribe'' \<or> Rep_pname p = ''inspect'' \<or> active st = None")
  case True
  then have "snd (handler_get ob p st) = st" by (auto simp: handler_get_def)
  then show ?thesis using seg_refl by simp
next
  case False
  then obtain r where a: "active st = Some r" by auto
  obtain sig s1 where e: "ensurePropSignalFor ob p st = (sig, s1)" by (cases "ensurePropSignalFor ob p st")
  let ?s2 = "trackDependency r sig (log (Tracked r sig) s1)"
  from False a e have h: "snd (handler_get ob p st) = ?s2" by (simp add: handler_get_def Let_def)
  note E = ensurePropSignalFor_rel[OF e]
  have 1: "rel {} (Some r) st [] s1" by (rule E(1))
  have 2: "rel {} (Some r) s1 [Tracked r sig] ?s2"
    by (rule rel_track) (use E(4) in auto)
  from rel_trans[OF 1 2] have "rel {} (Some r) st [Tracked r sig] ?s2" by simp
  moreover have "EFFECT_STACK ?s2 = EFFECT_STACK st"
    using E(2) by (simp add: trackDependency_fields log_fields)
  ultimately show ?thesis unfolding seg_def h a by blast
qed

lemma notifyGlobal_seg:
  assumes g: "good call"
  shows "notifyGlobal call fs args st = Some st' \<Longrightarrow> seg {} st st'"
proof (induction fs arbitrary: st)
  case Nil
  then show ?case using seg_refl by simp
next
  case (Cons f fs)
  from Cons.prems obtain res s1 where i: "call f args st = Some (res, s1)"
    and n: "notifyGlobal call fs args (case res of Normal v \<Rightarrow> s1 | Thrown err \<Rightarrow> s1\<lparr>console := console s1 @ [err]\<rparr>) = Some st'"
    by (auto split: option.splits completion.splits)
  let ?s2 = "case res of Normal v \<Rightarrow> s1 | Thrown err \<Rightarrow> s1\<lparr>console := console s1 @ [err]\<rparr>"
  have "seg {} st s1" using g i by (auto simp: good_def)
  moreover have "seg {} s1 ?s2" by (rule quiet_seg) (auto simp: quiet_def split: completion.splits)
  moreover have "seg {} ?s2 st'" by (rule Cons.IH[OF n])
  ultimately show ?case by (blast intro: seg_trans0)
qed

lemma handler_set_seg:
  assumes g: "good call" and r: "handler_set call ob p v st = Some st'"
  shows "seg {} st st'"
proof -
  let ?old = "target_get st ob p"
  let ?s1 = "st\<lparr>target := (target st)(ob := (target st ob)(p \<mapsto> v))\<rparr>"
  have q: "seg {} st ?s1" by (rule quiet_seg) (auto simp: quiet_def)
  show ?thesis
  proof (cases "strict_eq ?old v")
    case True
    with r have "st' = ?s1" by (simp add: handler_set_def Let_def)
    with q show ?thesis by simp
  next
    case False
    let ?n = "case STATE_PROP_SIGNALS ?s1 ob of None \<Rightarrow> Some ?s1
              | Some m \<Rightarrow> (case m p of None \<Rightarrow> Some ?s1 | Some sig \<Rightarrow> notify call (subs ?s1 sig) ?s1)"
    from r False obtain s2 where n: "?n = Some s2"
      and ng: "notifyGlobal call (globalSubs s2 ob) [VStr (Rep_pname p), ?old, v] s2 = Some st'"
      by (auto simp: handler_set_def Let_def split: option.splits)
    have "seg {} ?s1 s2"
    proof (cases "STATE_PROP_SIGNALS ?s1 ob")
      case None
      with n show ?thesis using seg_refl by simp
    next
      case (Some m)
      show ?thesis
      proof (cases "m p")
        case None
        with n Some show ?thesis using seg_refl by simp
      next
        case (Some sig)
        with n \<open>STATE_PROP_SIGNALS ?s1 ob = Some m\<close>
        have "notify call (subs ?s1 sig) ?s1 = Some s2" by simp
        from notify_seg[OF g this] show ?thesis by (rule seg_absorb) blast
      qed
    qed
    moreover have "seg {} s2 st'" by (rule notifyGlobal_seg[OF g ng])
    ultimately show ?thesis using q by (blast intro: seg_trans0)
  qed
qed

lemma disposer_seg:
  assumes g: "good call" and r: "disposer call e st = Some st'"
  shows "seg {} st st'"
proof -
  let ?s1 = "unsubscribe_deps (Runner e) (log (Disposed (Runner e)) st)"
  from r obtain s2 where c: "run_cleanup call True (eff_cleanup ?s1 e) ?s1 = Some s2"
    and st': "st' = s2\<lparr>eff_cleanup := (eff_cleanup s2)(e := VNull)\<rparr>"
    by (auto simp: disposer_def Let_def split: option.splits)
  have "rel {} (active st) st [Disposed (Runner e)] ?s1" by (rule rel_dispose_unsub) simp
  then have "seg {} st ?s1"
    unfolding seg_def by (auto simp: unsubscribe_deps_fields log_fields)
  moreover have "seg {} ?s1 s2" by (rule run_cleanup_seg[OF g c])
  moreover have "seg {} s2 st'" unfolding st' by (rule quiet_seg) (auto simp: quiet_def)
  ultimately show ?thesis by (blast intro: seg_trans0)
qed

lemma exec_seg:
  assumes g: "good call"
  shows "exec call p st = Some (res, st') \<Longrightarrow> seg {} st st'"
proof (induction p arbitrary: st)
  case (Return v)
  then show ?case using seg_refl by simp
next
  case (Throw v)
  then show ?case using seg_refl by simp
next
  case (Get s k)
  obtain v s1 where sg: "signal_get s st = (v, s1)" by (cases "signal_get s st")
  with Get.prems have "exec call (k v) s1 = Some (res, st')" by simp
  then have "seg {} s1 st'" using Get.IH by blast
  moreover have "seg {} st s1" using signal_get_seg[of "{}" st s] sg by simp
  ultimately show ?case by (blast intro: seg_trans0)
next
  case (Set s v k)
  from Set.prems obtain r1 s1 where ss: "signal_set call s v st = Some (r1, s1)"
    by (auto split: option.splits)
  have 1: "seg {} st s1" by (rule signal_set_seg[OF g ss])
  show ?case
  proof (cases r1)
    case (Thrown err)
    with Set.prems ss have "st' = s1" by simp
    with 1 show ?thesis by simp
  next
    case (Normal r)
    with Set.prems ss have "exec call (k r) s1 = Some (res, st')" by simp
    then have "seg {} s1 st'" using Set.IH by blast
    with 1 show ?thesis by (blast intro: seg_trans0)
  qed
next
  case (StateGet ob pr k)
  obtain v s1 where sg: "handler_get ob pr st = (v, s1)" by (cases "handler_get ob pr st")
  with StateGet.prems have "exec call (k v) s1 = Some (res, st')" by simp
  then have "seg {} s1 st'" using StateGet.IH by blast
  moreover have "seg {} st s1" using handler_get_seg[of st ob pr] sg by simp
  ultimately show ?case by (blast intro: seg_trans0)
next
  case (StateSet ob pr v p)
  from StateSet.prems obtain s1 where ss: "handler_set call ob pr v st = Some s1"
    and e: "exec call p s1 = Some (res, st')"
    by (auto split: option.splits)
  have "seg {} st s1" by (rule handler_set_seg[OF g ss])
  moreover have "seg {} s1 st'" using StateSet.IH e by blast
  ultimately show ?case by (blast intro: seg_trans0)
next
  case (Dispose e p)
  from Dispose.prems obtain s1 where ss: "disposer call e st = Some s1"
    and e: "exec call p s1 = Some (res, st')"
    by (auto split: option.splits)
  have "seg {} st s1" by (rule disposer_seg[OF g ss])
  moreover have "seg {} s1 st'" using Dispose.IH e by blast
  ultimately show ?case by (blast intro: seg_trans0)
next
  case (Push v k)
  let ?s1 = "st\<lparr>seen := seen st @ [v]\<rparr>"
  from Push.prems have "exec call (k (VNum (int (length (seen ?s1))))) ?s1 = Some (res, st')"
    by (simp add: Let_def)
  then have "seg {} ?s1 st'" using Push.IH by blast
  moreover have "seg {} st ?s1" by (rule quiet_seg) (auto simp: quiet_def)
  ultimately show ?case by (blast intro: seg_trans0)
qed

lemma log_invoke_seg: "seg A st (log (Invoke f args) st)"
proof -
  have "rel A (active st) st [Invoke f args] (log (Invoke f args) st)"
    by (rule relI) (simp_all add: log_fields consistent_log)
  then show ?thesis unfolding seg_def by (auto simp: log_fields)
qed

lemma good_call_fuel: "good (call_fuel fenv n)"
proof (induction n)
  case 0
  show ?case by (simp add: good_def)
next
  case (Suc n)
  show ?case
    unfolding good_def
  proof (intro allI impI)
    fix f args st res st'
    assume "call_fuel fenv (Suc n) f args st = Some (res, st')"
    then have "exec (call_fuel fenv n) (fenv f args) (log (Invoke f args) st) = Some (res, st')" by simp
    from exec_seg[OF Suc this] have "seg {} (log (Invoke f args) st) st'" .
    moreover have "seg {} st (log (Invoke f args) st)" by (rule log_invoke_seg)
    ultimately show "seg {} st st'" by (blast intro: seg_trans0)
  qed
qed

lemma events_since_append: "trace st' = trace st @ evs \<Longrightarrow> events_since st st' = evs"
  by (simp add: events_since_def)

lemma run_events_append [simp]: "run_events (xs @ ys) = run_events xs @ run_events ys"
  by (induction xs rule: run_events.induct) auto

lemma plain_calls_append [simp]: "plain_calls (xs @ ys) = plain_calls xs @ plain_calls ys"
  by (induction xs rule: plain_calls.induct) auto

lemma arg_calls_append [simp]: "arg_calls (xs @ ys) = arg_calls xs @ arg_calls ys"
  by (induction xs rule: arg_calls.induct) auto


lemma psum_refl: "psum st st [] [] []"
  by (simp add: psum_def)

lemma psum_trans:
  "psum st st1 rs1 zs1 cs1 \<Longrightarrow> psum st1 st2 rs2 zs2 cs2 \<Longrightarrow>
   psum st st2 (rs1 @ rs2) (zs1 @ zs2) (cs1 @ cs2)"
  unfolding psum_def by (elim conjE exE) (simp)

lemma psum_trans0: "psum st st1 [] [] [] \<Longrightarrow> psum st1 st2 rs zs cs \<Longrightarrow> psum st st2 rs zs cs"
  using psum_trans[of st st1 "[]" "[]" "[]" st2 rs zs cs] by simp

lemma psum_trans1: "psum st st1 rs zs cs \<Longrightarrow> psum st1 st2 [] [] [] \<Longrightarrow> psum st st2 rs zs cs"
  using psum_trans[of st st1 rs zs cs st2 "[]" "[]" "[]"] by simp

lemma signal_get_psum: "psum st (snd (signal_get s st)) [] [] []"
  by (auto simp: psum_def signal_get_def trackDependency_def log_def Let_def split: option.splits)

lemma ensurePropSignalFor_fields:
  "EFFECT_STACK (snd (ensurePropSignalFor ob p st)) = EFFECT_STACK st"
  "target (snd (ensurePropSignalFor ob p st)) = target st"
  "sig_value (snd (ensurePropSignalFor ob p st)) = sig_value st"
  "globalSubs (snd (ensurePropSignalFor ob p st)) = globalSubs st"
  "trace (snd (ensurePropSignalFor ob p st)) = trace st"
  "eff_fn (snd (ensurePropSignalFor ob p st)) = eff_fn st"
  "comp_fn (snd (ensurePropSignalFor ob p st)) = comp_fn st"
  by (auto simp: ensurePropSignalFor_def Let_def split: option.splits)

lemma handler_get_psum: "psum st (snd (handler_get ob p st)) [] [] []"
proof -
  obtain sig s1 where e: "ensurePropSignalFor ob p st = (sig, s1)" by (cases "ensurePropSignalFor ob p st")
  from ensurePropSignalFor_fields[of ob p st] e
  have "EFFECT_STACK s1 = EFFECT_STACK st" "target s1 = target st" "sig_value s1 = sig_value st"
    "globalSubs s1 = globalSubs st" "trace s1 = trace st" "eff_fn s1 = eff_fn st" "comp_fn s1 = comp_fn st"
    by simp_all
  then show ?thesis
    using e by (auto simp: psum_def handler_get_def trackDependency_def log_def Let_def split: option.splits)
qed

lemma exec_reads_only:
  "reads_only p \<Longrightarrow> \<exists>res st'. exec call p st = Some (res, st') \<and> psum st st' [] [] []"
proof (induction p arbitrary: st rule: reads_only.induct)
  case (1 v)
  then show ?case by (simp add: psum_refl)
next
  case (2 v)
  then show ?case by (simp add: psum_refl)
next
  case (3 k s)
  obtain v s1 where sg: "signal_get s st = (v, s1)" by (cases "signal_get s st")
  from 3(2)[of v s1] obtain res st' where "exec call (k v) s1 = Some (res, st')" "psum s1 st' [] [] []" by blast
  moreover have "psum st s1 [] [] []" using signal_get_psum[of st s] sg by simp
  ultimately show ?case using sg by (auto intro: psum_trans0)
next
  case (4 kp ob p)
  obtain v s1 where sg: "handler_get ob p st = (v, s1)" by (cases "handler_get ob p st")
  from 4(2)[of v s1] obtain res st' where "exec call (kp v) s1 = Some (res, st')" "psum s1 st' [] [] []" by blast
  moreover have "psum st s1 [] [] []" using handler_get_psum[of st ob p] sg by simp
  ultimately show ?case using sg by (auto intro: psum_trans0)
next
  case (5 k v)
  let ?s1 = "st\<lparr>seen := seen st @ [v]\<rparr>"
  from 5(2)[of "VNum (int (length (seen ?s1)))" ?s1] obtain res st'
    where "exec call (k (VNum (int (length (seen ?s1))))) ?s1 = Some (res, st')" "psum ?s1 st' [] [] []" by blast
  moreover have "psum st ?s1 [] [] []" by (simp add: psum_def)
  ultimately show ?case by (auto simp: Let_def intro: psum_trans0)
qed

lemma call_pure:
  assumes "reads_only (fenv g a)"
  shows "\<exists>res st'. call_fuel fenv (Suc n) g a st = Some (res, st') \<and>
           psum st st' [] (if a = [] then [g] else []) (if a = [] then [] else [(g, a)])"
proof -
  let ?s = "log (Invoke g a) st"
  from exec_reads_only[OF assms, of "call_fuel fenv n" ?s]
  obtain res st' where e: "exec (call_fuel fenv n) (fenv g a) ?s = Some (res, st')" and p: "psum ?s st' [] [] []"
    by blast
  have "psum st ?s [] (if a = [] then [g] else []) (if a = [] then [] else [(g, a)])"
    by (simp add: psum_def log_def)
  from psum_trans1[OF this p] e show ?thesis by auto
qed


lemma call_all_pure:
  assumes "all_reads_only fenv"
  shows "\<exists>res st'. call_fuel fenv (Suc n) g a st = Some (res, st') \<and>
           psum st st' [] (if a = [] then [g] else []) (if a = [] then [] else [(g, a)])"
  using assms call_pure[of fenv g a n st] by (simp add: all_reads_only_def)








text \<open>The definitions a concrete run unfolds.\<close>

lemmas eval_defs = createSignal_def createEffect_def createComputed_def initial_state_def runner_def recompute_def
    unsubscribe_deps_def log_def run_cleanup_def push_def pop_def signal_get_def active_def trackDependency_def
    set_add_def signal_set_def invoke_def unsubscribe_one_def set_delete_def getter_def events_since_def
    disposer_def handler_get_def handler_set_def target_get_def ensurePropSignalFor_def state_create_def
    state_subscribe_def signal_subscribe_def next_value_def strict_eq_def state_of_def Let_def

lemma seg_trace: "seg A st st' \<Longrightarrow> \<exists>evs. trace st' = trace st @ evs"
  by (auto simp: seg_def rel_def)



lemma call_fuel_logs:
  assumes "call_fuel fenv n f args st = Some (res, st')"
  shows "\<exists>evs. trace st' = trace st @ Invoke f args # evs"
proof (cases n)
  case 0
  with assms show ?thesis by simp
next
  case (Suc m)
  with assms have "exec (call_fuel fenv m) (fenv f args) (log (Invoke f args) st) = Some (res, st')" by simp
  from seg_trace[OF exec_seg[OF good_call_fuel this]] show ?thesis by (auto simp: log_fields)
qed

lemma entered_logs:
  assumes "entered r st st'"
  shows "\<exists>evs. trace st' = trace st @ Run r # evs"
  using enter_rel(2)[OF assms] by (auto simp: rel_def)

lemma invoke_logs:
  assumes "invoke (call_fuel fenv n) y st = Some (res, st')"
  shows "\<exists>evs. trace st' = trace st @ delivery_event y # evs"
proof (cases "is_comp y")
  case True
  from entered_logs[OF invoke_entered[OF good_call_fuel True assms]] True
  show ?thesis by (cases y) auto
next
  case False
  then obtain f where "y = Listener f" by (cases y) auto
  with assms call_fuel_logs[of fenv n f "[]" st res st'] show ?thesis by (simp add: invoke_def)
qed

lemma notify_delivers:
  "notify (call_fuel fenv n) ys st = Some st' \<Longrightarrow> y \<in> set ys \<Longrightarrow> delivery_event y \<in> set (events_since st st')"
proof (induction ys arbitrary: st)
  case Nil
  then show ?case by simp
next
  case (Cons x xs)
  from Cons.prems(1) obtain res s1 where i: "invoke (call_fuel fenv n) x st = Some (res, s1)"
    and n: "notify (call_fuel fenv n) xs (case res of Normal v \<Rightarrow> s1 | Thrown err \<Rightarrow> s1\<lparr>timers := timers s1 @ [err]\<rparr>) = Some st'"
    by (auto split: option.splits completion.splits)
  let ?s2 = "case res of Normal v \<Rightarrow> s1 | Thrown err \<Rightarrow> s1\<lparr>timers := timers s1 @ [err]\<rparr>"
  from invoke_logs[OF i] obtain e1 where t1: "trace s1 = trace st @ delivery_event x # e1" by blast
  have t2: "trace ?s2 = trace s1" by (auto split: completion.splits)
  from seg_trace[OF notify_seg[OF good_call_fuel n]] obtain e2 where t3: "trace st' = trace ?s2 @ e2" by blast
  have ev: "events_since st st' = delivery_event x # e1 @ e2"
    using t1 t2 t3 by (simp add: events_since_def)
  show ?case
  proof (cases "y = x")
    case True
    then show ?thesis using ev by simp
  next
    case False
    with Cons.prems(2) have "y \<in> set xs" by simp
    from Cons.IH[OF n this] have "delivery_event y \<in> set e2" using t3 by (simp add: events_since_def)
    then show ?thesis using ev by simp
  qed
qed


lemma seg_fields:
  assumes "seg A st st'"
  shows "globalSubs st' = globalSubs st" "eff_fn st' = eff_fn st" "comp_fn st' = comp_fn st"
  using assms by (auto simp: seg_def rel_def)



lemma notifyGlobal_delivers:
  "notifyGlobal (call_fuel fenv n) gs args st = Some st' \<Longrightarrow> g \<in> set gs \<Longrightarrow>
     Invoke g args \<in> set (events_since st st')"
proof (induction gs arbitrary: st)
  case Nil
  then show ?case by simp
next
  case (Cons x xs)
  from Cons.prems(1) obtain res s1 where i: "call_fuel fenv n x args st = Some (res, s1)"
    and n: "notifyGlobal (call_fuel fenv n) xs args
              (case res of Normal v \<Rightarrow> s1 | Thrown err \<Rightarrow> s1\<lparr>console := console s1 @ [err]\<rparr>) = Some st'"
    by (auto split: option.splits completion.splits)
  let ?s2 = "case res of Normal v \<Rightarrow> s1 | Thrown err \<Rightarrow> s1\<lparr>console := console s1 @ [err]\<rparr>"
  from call_fuel_logs[OF i] obtain e1 where t1: "trace s1 = trace st @ Invoke x args # e1" by blast
  have t2: "trace ?s2 = trace s1" by (auto split: completion.splits)
  from seg_trace[OF notifyGlobal_seg[OF good_call_fuel n]] obtain e2 where t3: "trace st' = trace ?s2 @ e2"
    by blast
  have ev: "events_since st st' = Invoke x args # e1 @ e2"
    using t1 t2 t3 by (simp add: events_since_def)
  show ?case
  proof (cases "g = x")
    case True
    then show ?thesis using ev by simp
  next
    case False
    with Cons.prems(2) have "g \<in> set xs" by simp
    from Cons.IH[OF n this] have "Invoke g args \<in> set e2" using t3 by (simp add: events_since_def)
    then show ?thesis using ev by simp
  qed
qed

lemma psum_events:
  assumes "psum st st' rs zs cs"
  shows "run_events (events_since st st') = rs" "plain_calls (events_since st st') = zs"
    "arg_calls (events_since st st') = cs"
  using assms by (auto simp: psum_def events_since_def)















lemma handler_set_delivers:
  assumes ch: "\<not> strict_eq (target_get st ob p) v"
    and h: "handler_set (call_fuel fenv n) ob p v st = Some st'"
  shows "x \<in> set (prop_subscribers st ob p) \<Longrightarrow> delivery_event x \<in> set (events_since st st')"
    and "g \<in> set (globalSubs st ob) \<Longrightarrow>
           Invoke g [VStr (Rep_pname p), target_get st ob p, v] \<in> set (events_since st st')"
proof -
  let ?C = "call_fuel fenv n"
  let ?s1 = "st\<lparr>target := (target st)(ob := (target st ob)(p \<mapsto> v))\<rparr>"
  let ?n = "case STATE_PROP_SIGNALS ?s1 ob of None \<Rightarrow> Some ?s1
            | Some m \<Rightarrow> (case m p of None \<Rightarrow> Some ?s1 | Some sig \<Rightarrow> notify ?C (subs ?s1 sig) ?s1)"
  from h ch obtain s2 where n: "?n = Some s2"
    and ng: "notifyGlobal ?C (globalSubs s2 ob) [VStr (Rep_pname p), target_get st ob p, v] s2 = Some st'"
    by (auto simp: handler_set_def Let_def split: option.splits)
  have n': "notify ?C (prop_subscribers st ob p) ?s1 = Some s2"
    using n by (auto simp: prop_subscribers_def split: option.splits)
  note s12 = notify_seg[OF good_call_fuel n']
  from seg_trace[OF s12] obtain e1 where t1: "trace s2 = trace st @ e1" by auto
  from seg_trace[OF notifyGlobal_seg[OF good_call_fuel ng]] obtain e2 where t2: "trace st' = trace s2 @ e2"
    by blast
  have gs: "globalSubs s2 ob = globalSubs st ob" using seg_fields(1)[OF s12] by simp
  show "delivery_event x \<in> set (events_since st st')" if "x \<in> set (prop_subscribers st ob p)"
    using notify_delivers[OF n' that] t1 t2 by (simp add: events_since_def)
  show "Invoke g [VStr (Rep_pname p), target_get st ob p, v] \<in> set (events_since st st')"
    if "g \<in> set (globalSubs st ob)"
    using notifyGlobal_delivers[OF ng, of g] that gs t1 t2 by (simp add: events_since_def)
qed




lemma next_value_pure:
  assumes a: "all_reads_only fenv"
  shows "\<exists>res st0. next_value (call_fuel fenv (Suc n)) s newVal st = Some (res, st0) \<and>
           run_events (events_since st st0) = [] \<and> plain_calls (events_since st st0) = [] \<and>
           sig_value st0 = sig_value st"
proof (cases newVal)
  case (VFun f)
  from call_all_pure[OF a, of n f "[sig_value st s]" st] obtain res st0
    where "call_fuel fenv (Suc n) f [sig_value st s] st = Some (res, st0)"
      and p: "psum st st0 [] [] [(f, [sig_value st s])]" by auto
  moreover from p have "sig_value st0 = sig_value st" by (simp add: psum_def)
  ultimately show ?thesis using VFun psum_events[OF p] unfolding next_value_def by (auto simp del: call_fuel.simps)
qed (simp_all add: next_value_def events_since_def)



lemma isState_name [simp]: "''__isState'' \<notin> set object_prototype_names"
  by (simp add: object_prototype_names_def)

lemma count_name [simp]: "''count'' \<notin> set object_prototype_names"
  by (simp add: object_prototype_names_def)








text \<open>
  The other way a disposed effect comes back: \<^verbatim>\<open>setS(1)\<close> has taken its list of
  subscribers, the first effect disposes the second, and the loop still calls the second,
  which subscribes again; \<^verbatim>\<open>setS(2)\<close> then runs it.
\<close>

lemma disposed_in_snapshot_runs_again:
  "events_since snapshot_created snapshot_disposed =
     [Run (Runner 0), Invoke 0 [], Tracked (Runner 0) (SignalKey 0), Disposed (Runner 1),
      Run (Runner 1), Invoke 1 [], Tracked (Runner 1) (SignalKey 0)] \<and>
   events_since snapshot_disposed snapshot_written =
     [Run (Runner 0), Invoke 0 [], Tracked (Runner 0) (SignalKey 0),
      Run (Runner 1), Invoke 1 [], Tracked (Runner 1) (SignalKey 0)] \<and>
   seen snapshot_written = [VStr ''ran'', VStr ''ran'', VStr ''ran'']"
  by (simp add: snapshot_written_def snapshot_disposed_def snapshot_created_def snapshot_prog_def eval_defs)









lemma scenario_names [simp]:
  "''other'' \<notin> set object_prototype_names" "''a'' \<notin> set object_prototype_names"
  "''b'' \<notin> set object_prototype_names"
  by (simp_all add: object_prototype_names_def)


section \<open>The claims\<close>

text \<open>
  C8. A non-function passed to \<^verbatim>\<open>createEffect\<close> or \<^verbatim>\<open>createComputed\<close> is rejected at
  call time: the call throws its \<^verbatim>\<open>Error\<close> and the state is untouched (no run cycle, no
  registry change, nothing queued), whatever could be called.
\<close>

theorem non_function_rejected:
  "\<not> is_function fn \<Longrightarrow>
     createEffect call fn st = Some (Thrown (Error ''createEffect: fn must be a function''), st) \<and>
     createComputed call fn st = Some (Thrown (Error ''createComputed: fn must be a function''), st)"
  by (cases fn) (simp_all add: createEffect_def createComputed_def)

theorem non_function_rejected_witness:
  "\<not> is_function (VNum 3) \<and>
   createEffect (call_fuel (\<lambda>f args. Return VUndefined) 0) (VNum 3) initial_state =
     Some (Thrown (Error ''createEffect: fn must be a function''), initial_state) \<and>
   createComputed (call_fuel (\<lambda>f args. Return VUndefined) 0) (VNum 3) initial_state =
     Some (Thrown (Error ''createComputed: fn must be a function''), initial_state)"
  using non_function_rejected[of "VNum 3" "call_fuel (\<lambda>f args. Return VUndefined) 0" initial_state]
  by simp

text \<open>
  C9, as stated, fails: \<^verbatim>\<open>set(f)\<close> with an \<open>f\<close> that returns itself stores \<open>f\<close>, and the
  signal's value is a function afterwards.
\<close>

theorem set_stores_function_counterexample:
  "signal_set (call_fuel updater_prog 1) 0 (VFun 7) updater_start = Some (Normal (VFun 7), updater_after) \<and>
   sig_value updater_after 0 = VFun 7 \<and> is_function (sig_value updater_after 0)"
  by (simp add: updater_start_def updater_after_def updater_prog_def signal_set_def next_value_def
      strict_eq_def createSignal_def initial_state_def log_def)

text \<open>
  C9, amended. \<^verbatim>\<open>set(f)\<close> with a function \<open>f\<close> always calls \<open>f\<close> on the previous value
  and commits what \<open>f\<close> returns, never \<open>f\<close> as such: when the call returns \<open>v\<close>, the
  signal is set to \<open>v\<close> and notification proceeds as for any value (with no subscriber
  the value after the call is \<open>v\<close>); when the call throws, \<^verbatim>\<open>set\<close> throws the same and
  commits nothing; when it does not return, neither does \<^verbatim>\<open>set\<close>. So the stored value is
  a function exactly when the updater returned one.
\<close>

theorem set_function_is_updater:
  "(\<forall>v st1. call f [sig_value st s] st = Some (Normal v, st1) \<longrightarrow>
      signal_set call s (VFun f) st =
        (let st2 = st1\<lparr>sig_value := (sig_value st1)(s := v)\<rparr>
         in if strict_eq (sig_value st s) v then Some (Normal v, st2)
            else map_option (\<lambda>st3. (Normal (sig_value st3 s), st3))
                   (notify call (subs st2 (SignalKey s)) st2))) \<and>
   (\<forall>v st1. call f [sig_value st s] st = Some (Normal v, st1) \<longrightarrow> subs st1 (SignalKey s) = [] \<longrightarrow>
      (\<exists>st'. signal_set call s (VFun f) st = Some (Normal v, st') \<and> sig_value st' s = v)) \<and>
   (\<forall>err st1. call f [sig_value st s] st = Some (Thrown err, st1) \<longrightarrow>
      signal_set call s (VFun f) st = Some (Thrown err, st1)) \<and>
   (call f [sig_value st s] st = None \<longrightarrow> signal_set call s (VFun f) st = None)"
  by (auto simp: signal_set_def next_value_def Let_def split: option.splits)

theorem set_function_is_updater_witness:
  "call_fuel updater_prog 1 0 [sig_value updater_start 0] updater_start = Some (Normal (VNum 1), log (Invoke 0 [VNum 0]) updater_start) \<and>
   subs (log (Invoke 0 [VNum 0]) updater_start) (SignalKey 0) = [] \<and>
   (\<exists>st'. signal_set (call_fuel updater_prog 1) 0 (VFun 0) updater_start = Some (Normal (VNum 1), st') \<and>
          sig_value st' 0 = VNum 1)"
proof -
  have 1: "call_fuel updater_prog 1 0 [sig_value updater_start 0] updater_start
             = Some (Normal (VNum 1), log (Invoke 0 [VNum 0]) updater_start)"
    by (simp add: updater_start_def updater_prog_def createSignal_def initial_state_def)
  have 2: "subs (log (Invoke 0 [VNum 0]) updater_start) (SignalKey 0) = []"
    by (simp add: updater_start_def createSignal_def initial_state_def log_def)
  from set_function_is_updater[of "call_fuel updater_prog 1" 0 updater_start 0] 1 2
  have "\<exists>st'. signal_set (call_fuel updater_prog 1) 0 (VFun 0) updater_start = Some (Normal (VNum 1), st') \<and>
          sig_value st' 0 = VNum 1" by blast
  with 1 2 show ?thesis by blast
qed

text \<open>
  C10, as stated, fails: a field named \<^verbatim>\<open>__isState\<close> on the initial object is kept in the
  backing record, and the proxy shows it twice over. \<^verbatim>\<open>inspect()\<close> returns it, and an
  assignment to \<^verbatim>\<open>__isState\<close> hands it to every global listener as the old value.
\<close>

theorem isState_field_observed_counterexample:
  "fst (handler_get (fst flagged_object) (Abs_pname ''__isState'') (snd flagged_object)) = Plain (VBool True) \<and>
   state_inspect (fst flagged_object) (snd flagged_object) (Abs_pname ''__isState'') = Some (VStr ''mine'') \<and>
   events_since flagged_listening flagged_written = [Invoke 0 [VStr ''__isState'', VStr ''mine'', VNum 1]] \<and>
   seen flagged_written = [VStr ''mine'']"
  by (simp add: flagged_written_def flagged_listening_def flagged_object_def flagged_prog_def
      state_inspect_def eval_defs)

text \<open>
  C10, amended. A read of \<^verbatim>\<open>__isState\<close> through the \<^verbatim>\<open>get\<close> trap is answered with
  \<^verbatim>\<open>true\<close> before the backing record is consulted, whatever the record holds: the state
  is untouched (nothing is tracked) and user code reading the property continues with
  \<^verbatim>\<open>true\<close>; \<^verbatim>\<open>subscribe\<close> and \<^verbatim>\<open>inspect\<close> are answered with the trap's own closures in
  the same way. The field itself stays in the record: \<^verbatim>\<open>inspect()\<close> on a fresh state
  object returns the initial record, this field included, and when an assignment changes the
  field every global listener is called with its old value.
\<close>

theorem isState_intercepted:
  "(Rep_pname p = ''__isState'' \<longrightarrow>
      handler_get ob p st = (Plain (VBool True), st) \<and>
      exec call (StateGet ob p k) st = exec call (k (Plain (VBool True))) st) \<and>
   (Rep_pname p = ''subscribe'' \<longrightarrow> handler_get ob p st = (SubscribeFn ob, st)) \<and>
   (Rep_pname p = ''inspect'' \<longrightarrow> handler_get ob p st = (InspectFn ob, st)) \<and>
   state_inspect (fst (state_create initial st)) (snd (state_create initial st)) = initial \<and>
   (\<forall>n v st' g. \<not> strict_eq (target_get st ob p) v \<longrightarrow>
      handler_set (call_fuel fenv n) ob p v st = Some st' \<longrightarrow> g \<in> set (globalSubs st ob) \<longrightarrow>
      Invoke g [VStr (Rep_pname p), target_get st ob p, v] \<in> set (events_since st st'))"
proof -
  have "Invoke g [VStr (Rep_pname p), target_get st ob p, v] \<in> set (events_since st st')"
    if "\<not> strict_eq (target_get st ob p) v" "handler_set (call_fuel fenv n) ob p v st = Some st'"
      "g \<in> set (globalSubs st ob)" for n v st' g
    using handler_set_delivers(2)[OF that] .
  moreover have "state_inspect (fst (state_create initial st)) (snd (state_create initial st)) = initial"
    by (simp add: state_inspect_def state_create_def Let_def)
  ultimately show ?thesis by (simp add: handler_get_def)
qed

theorem isState_intercepted_witness:
  "Rep_pname (Abs_pname ''__isState'') = ''__isState'' \<and>
   target (snd flagged_object) (fst flagged_object) (Abs_pname ''__isState'') = Some (VStr ''mine'') \<and>
   handler_get (fst flagged_object) (Abs_pname ''__isState'') (snd flagged_object)
     = (Plain (VBool True), snd flagged_object) \<and>
   fst (handler_get (fst flagged_object) (Abs_pname ''count'') (snd flagged_object)) = Plain (VNum 0)"
proof -
  have 1: "Rep_pname (Abs_pname ''__isState'') = ''__isState''" by simp
  have 2: "target (snd flagged_object) (fst flagged_object) (Abs_pname ''__isState'') = Some (VStr ''mine'')"
    by (simp add: flagged_object_def state_create_def initial_state_def)
  from isState_intercepted[of "Abs_pname ''__isState''" "fst flagged_object" "snd flagged_object"] 1
  have 3: "handler_get (fst flagged_object) (Abs_pname ''__isState'') (snd flagged_object)
     = (Plain (VBool True), snd flagged_object)" by blast
  have 4: "fst (handler_get (fst flagged_object) (Abs_pname ''count'') (snd flagged_object)) = Plain (VNum 0)"
    by (simp add: flagged_object_def state_create_def initial_state_def handler_get_def active_def target_get_def)
  show ?thesis by (intro conjI) (fact 1 2 3 4)+
qed






















end
